theory Spec2Isabelle
  imports Complex_Main "HOL-Library.Sublist"
begin

section \<open>Values of the transaction-text parser\<close>

text \<open>
  The parser of \<^verbatim>\<open>src/scripts/parse_transaction_text.py\<close> turns the textual dump of a
  transaction object into Python values: \<^verbatim>\<open>None\<close>, booleans, integers, floats, strings,
  lists and dictionaries. A dictionary keeps its keys in insertion order and holds each key
  once, so it is an association list that is only ever changed by \<open>dict_set\<close>.

  A float is an IEEE binary64 number: a finite one is given by its exact rational value,
  the two zeros, the two infinities and the NaN are values of their own.

  A string is a list of characters whose code points are below 256.
\<close>

datatype pyfloat = Finite rat | NegZero | PosInf | NegInf | NaN

datatype pyval =
    PNone
  | PBool bool
  | PInt int
  | PFloat pyfloat
  | PStr string
  | PList "pyval list"
  | PDict "(string \<times> pyval) list"

type_synonym dict = "(string \<times> pyval) list"

text \<open>\<^verbatim>\<open>d[k] = v\<close>: an existing key keeps its place and gets the new value, a new key goes last.\<close>

fun dict_set :: "dict \<Rightarrow> string \<Rightarrow> pyval \<Rightarrow> dict" where
  "dict_set [] k v = [(k, v)]"
| "dict_set ((k', v') # d) k v = (if k' = k then (k, v) # d else (k', v') # dict_set d k v)"

text \<open>\<^verbatim>\<open>k in d\<close> and \<^verbatim>\<open>d[k]\<close> (read only under \<^verbatim>\<open>k in d\<close>).\<close>

definition dict_has :: "dict \<Rightarrow> string \<Rightarrow> bool" where
  "dict_has d k = (k \<in> fst ` set d)"

definition dict_get :: "dict \<Rightarrow> string \<Rightarrow> pyval option" where
  "dict_get d k = map_of d k"

section \<open>Strings\<close>

text \<open>
  The string methods and the character classes the parser uses, on code points below 256.
  White space is what \<^verbatim>\<open>str.strip()\<close>, \<^verbatim>\<open>str.isspace()\<close> and the pattern \<^verbatim>\<open>\s\<close> take: the
  code points 9 to 13, 28 to 32, 133 and 160. A word character (the pattern \<^verbatim>\<open>\w\<close>) is an
  alphanumeric character or the underscore.
\<close>

definition is_space :: "char \<Rightarrow> bool" where
  "is_space c = (let n = (of_char c :: nat) in (9 \<le> n \<and> n \<le> 13) \<or> (28 \<le> n \<and> n \<le> 32) \<or> n = 133 \<or> n = 160)"

definition is_digit :: "char \<Rightarrow> bool" where
  "is_digit c = (let n = (of_char c :: nat) in 48 \<le> n \<and> n \<le> 57)"

definition is_word :: "char \<Rightarrow> bool" where
  "is_word c = (let n = (of_char c :: nat) in
     (48 \<le> n \<and> n \<le> 57) \<or> (65 \<le> n \<and> n \<le> 90) \<or> n = 95 \<or> (97 \<le> n \<and> n \<le> 122) \<or>
     n = 170 \<or> n = 178 \<or> n = 179 \<or> n = 181 \<or> n = 185 \<or> n = 186 \<or> (188 \<le> n \<and> n \<le> 190) \<or>
     (192 \<le> n \<and> n \<le> 214) \<or> (216 \<le> n \<and> n \<le> 246) \<or> (248 \<le> n \<and> n \<le> 255))"

definition lower_char :: "char \<Rightarrow> char" where
  "lower_char c = (let n = (of_char c :: nat) in
     if (65 \<le> n \<and> n \<le> 90) \<or> (192 \<le> n \<and> n \<le> 222 \<and> n \<noteq> 215) then char_of (n + 32) else c)"

definition lower :: "string \<Rightarrow> string" where
  "lower s = map lower_char s"

definition lstrip :: "string \<Rightarrow> string" where
  "lstrip s = dropWhile is_space s"

definition rstrip :: "string \<Rightarrow> string" where
  "rstrip s = rev (dropWhile is_space (rev s))"

definition strip :: "string \<Rightarrow> string" where
  "strip s = rstrip (lstrip s)"

definition startswith :: "string \<Rightarrow> string \<Rightarrow> bool" where
  "startswith s p = prefix p s"

definition endswith :: "string \<Rightarrow> string \<Rightarrow> bool" where
  "endswith s p = suffix p s"

text \<open>\<^verbatim>\<open>needle in hay\<close> on strings: \<open>needle\<close> occurs in \<open>hay\<close> as a contiguous piece.\<close>

fun contains :: "string \<Rightarrow> string \<Rightarrow> bool" where
  "contains [] needle = (needle = [])"
| "contains (c # cs) needle = (prefix needle (c # cs) \<or> contains cs needle)"

subsection \<open>The regular expressions\<close>

text \<open>
  Every pattern of the parser is anchored at both ends and is matched by \<^verbatim>\<open>re.match\<close>, so a
  match, when there is one, is found without search: a greedy \<^verbatim>\<open>\w+\<close> or \<^verbatim>\<open>\s*\<close> takes the
  longest run (the character after it must be of another class), and a greedy \<^verbatim>\<open>(.+)\<close> under
  \<^verbatim>\<open>re.DOTALL\<close> before \<^verbatim>\<open>\]$\<close> runs to the last closing bracket. \<^verbatim>\<open>$\<close> is the end of the
  string, or the place before a line feed that ends the string.
\<close>

definition LF :: char where
  "LF = char_of (10 :: nat)"

text \<open>\<^verbatim>\<open>(.+)\]$\<close> with \<^verbatim>\<open>re.DOTALL\<close>, on what is left of the string: the group.\<close>

definition match_to_last_bracket :: "string \<Rightarrow> string option" where
  "match_to_last_bracket r =
     (if 2 \<le> length r \<and> last r = CHR '']'' then Some (butlast r)
      else if 3 \<le> length r \<and> suffix [CHR '']'', LF] r then Some (take (length r - 2) r)
      else None)"

text \<open>\<^verbatim>\<open>^(\w+)\s*\[value=([^\]]+)\]$\<close>: the two groups.\<close>

definition match_value_wrapper :: "string \<Rightarrow> (string \<times> string) option" where
  "match_value_wrapper s =
     (let type_name = takeWhile is_word s;
          after_name = dropWhile is_space (dropWhile is_word s)
      in if type_name \<noteq> [] \<and> prefix ''[value='' after_name then
           (let body = drop 7 after_name;
                inner = takeWhile (\<lambda>c. c \<noteq> CHR '']'') body;
                rest = dropWhile (\<lambda>c. c \<noteq> CHR '']'') body
            in if inner \<noteq> [] \<and> (rest = '']'' \<or> rest = [CHR '']'', LF]) then Some (type_name, inner)
               else None)
         else None)"

text \<open>\<^verbatim>\<open>^Optional\[(.+)\]$\<close> and \<^verbatim>\<open>^JsonNullable\[(.+)\]$\<close> with \<^verbatim>\<open>re.DOTALL\<close>; \<open>opening\<close> is the
  literal text up to and with the opening bracket.\<close>

definition match_wrapper :: "string \<Rightarrow> string \<Rightarrow> string option" where
  "match_wrapper opening s =
     (if prefix opening s then match_to_last_bracket (drop (length opening) s) else None)"

text \<open>\<^verbatim>\<open>^(\w+)\[(.+)\]$\<close> with \<^verbatim>\<open>re.DOTALL\<close>: the two groups.\<close>

definition match_nested :: "string \<Rightarrow> (string \<times> string) option" where
  "match_nested s =
     (let type_name = takeWhile is_word s; after_name = dropWhile is_word s
      in if type_name \<noteq> [] \<and> prefix ''['' after_name then
           map_option (\<lambda>inner. (type_name, inner)) (match_to_last_bracket (drop 1 after_name))
         else None)"

text \<open>\<^verbatim>\<open>^\s*Transaction\[(.+)\]\s*$\<close> with \<^verbatim>\<open>re.DOTALL\<close>: the group. The closing bracket
  is the last one of the text, and only white space may follow it.\<close>

definition match_transaction :: "string \<Rightarrow> string option" where
  "match_transaction s =
     (let t = lstrip s
      in if prefix ''Transaction['' t then
           (let r = rstrip (drop 12 t)
            in if 2 \<le> length r \<and> last r = CHR '']'' then Some (butlast r) else None)
         else None)"

text \<open>\<^verbatim>\<open>re.split(r'(?=Transaction\[)', text)\<close>: the text is cut before every place where the
  literal stands (also before the first character, which leaves an empty first piece).
  \<open>cur\<close> is the piece being read.\<close>

fun split_before :: "string \<Rightarrow> string \<Rightarrow> string \<Rightarrow> string list" where
  "split_before lit cur [] = [cur]"
| "split_before lit cur (c # cs) =
     (if prefix lit (c # cs) then cur # split_before lit [c] cs
      else split_before lit (cur @ [c]) cs)"

section \<open>Numbers\<close>

text \<open>
  \<^verbatim>\<open>int(s)\<close> and \<^verbatim>\<open>float(s)\<close> on a string, with \<open>None\<close> for \<^verbatim>\<open>ValueError\<close>. Both drop the white
  space around the number (for them the code points 9 to 13, 32, 133 and 160), read an
  optional sign, and take decimal digits with single underscores between digits. The
  interpreter's limit on the number of digits of an integer is a setting of the run, not
  of the program, and is left out.
\<close>

definition is_num_space :: "char \<Rightarrow> bool" where
  "is_num_space c = (let n = (of_char c :: nat) in (9 \<le> n \<and> n \<le> 13) \<or> n = 32 \<or> n = 133 \<or> n = 160)"

definition num_strip :: "string \<Rightarrow> string" where
  "num_strip s = rev (dropWhile is_num_space (rev (dropWhile is_num_space s)))"

text \<open>\<^verbatim>\<open>digitpart ::= digit (["_"] digit)*\<close>\<close>

fun digitpart :: "string \<Rightarrow> bool" where
  "digitpart [] = False"
| "digitpart [c] = is_digit c"
| "digitpart (c # d # cs) = (is_digit c \<and> (if d = CHR ''_'' then digitpart cs else digitpart (d # cs)))"

definition digits_value :: "string \<Rightarrow> int" where
  "digits_value s = foldl (\<lambda>a c. 10 * a + (of_char c - 48)) 0 (filter is_digit s)"

text \<open>An optional sign: whether it is a minus, and the text after it.\<close>

fun split_sign :: "string \<Rightarrow> bool \<times> string" where
  "split_sign [] = (False, [])"
| "split_sign (c # cs) =
     (if c = CHR ''-'' then (True, cs) else if c = CHR ''+'' then (False, cs) else (False, c # cs))"

definition py_int :: "string \<Rightarrow> int option" where
  "py_int s =
     (case split_sign (num_strip s) of (neg, body) \<Rightarrow>
        if digitpart body then Some (if neg then - digits_value body else digits_value body)
        else None)"

subsection \<open>Floats\<close>

text \<open>
  Rounding to the nearest binary64 number, ties to even: a magnitude \<open>a > 0\<close> is scaled by the
  power of two that leaves 53 bits before the point (or by \<open>2 ^ - 1074\<close>, the spacing of the
  subnormal numbers), rounded to an integer and scaled back. A result of \<open>2 ^ 1024\<close> or
  more is an infinity.
\<close>

function bit_length :: "int \<Rightarrow> int" where
  "bit_length n = (if n \<le> 0 then 0 else 1 + bit_length (n div 2))"
  by pat_completeness auto
termination
  by (relation "measure nat") auto

declare bit_length.simps [simp del]

definition pow2 :: "int \<Rightarrow> rat" where
  "pow2 e = (if 0 \<le> e then of_int (2 ^ nat e) else 1 / of_int (2 ^ nat (- e)))"

definition pow10 :: "int \<Rightarrow> rat" where
  "pow10 e = (if 0 \<le> e then of_int (10 ^ nat e) else 1 / of_int (10 ^ nat (- e)))"

definition floor_log2 :: "rat \<Rightarrow> int" where
  "floor_log2 a =
     (case quotient_of a of (p, d) \<Rightarrow>
        (let k = bit_length p - bit_length d
         in if pow2 k \<le> a then k else k - 1))"

definition round_half_even :: "rat \<Rightarrow> int" where
  "round_half_even x =
     (let f = \<lfloor>x\<rfloor>; r = x - of_int f
      in if r < 1 / 2 then f else if 1 / 2 < r then f + 1 else if even f then f else f + 1)"

definition signed_zero :: "bool \<Rightarrow> pyfloat" where
  "signed_zero neg = (if neg then NegZero else Finite 0)"

definition signed_inf :: "bool \<Rightarrow> pyfloat" where
  "signed_inf neg = (if neg then NegInf else PosInf)"

definition round_double :: "bool \<Rightarrow> rat \<Rightarrow> pyfloat" where
  "round_double neg a =
     (if a = 0 then signed_zero neg
      else (let e = max (floor_log2 a - 52) (- 1074);
                v = of_int (round_half_even (a / pow2 e)) * pow2 e
            in if pow2 1024 \<le> v then signed_inf neg
               else if v = 0 then signed_zero neg
               else Finite (if neg then - v else v)))"

text \<open>
  \<^verbatim>\<open>float(s)\<close> on a string:
  \<^verbatim>\<open>
  floatvalue ::= [sign] (floatnumber | "inf" | "infinity" | "nan")    (letters in any case)
  floatnumber ::= number [("e" | "E") [sign] digitpart]
  number ::= [digitpart] "." digitpart | digitpart ["."]
  \<close>
\<close>

definition is_exp_mark :: "char \<Rightarrow> bool" where
  "is_exp_mark c = (c = CHR ''e'' \<or> c = CHR ''E'')"

definition py_float :: "string \<Rightarrow> pyfloat option" where
  "py_float s =
     (case split_sign (num_strip s) of (neg, body) \<Rightarrow>
        if lower body = ''inf'' \<or> lower body = ''infinity'' then Some (signed_inf neg)
        else if lower body = ''nan'' then Some NaN
        else
          (let mantissa = takeWhile (\<lambda>c. \<not> is_exp_mark c) body;
               exponent = dropWhile (\<lambda>c. \<not> is_exp_mark c) body;
               int_part = takeWhile (\<lambda>c. c \<noteq> CHR ''.'') mantissa;
               point = dropWhile (\<lambda>c. c \<noteq> CHR ''.'') mantissa;
               frac_part = drop 1 point;
               number_ok =
                 (if point = [] then digitpart int_part
                  else ((int_part = [] \<or> digitpart int_part) \<and> digitpart frac_part)
                       \<or> (digitpart int_part \<and> frac_part = []))
           in case split_sign (drop 1 exponent) of (exp_neg, exp_digits) \<Rightarrow>
                if number_ok \<and> (exponent = [] \<or> digitpart exp_digits) then
                  (let e = (if exp_neg then - digits_value exp_digits else digits_value exp_digits)
                   in Some (round_double neg
                        (of_int (digits_value (int_part @ frac_part))
                           * pow10 (e - int (length (filter is_digit frac_part))))))
                else None))"

text \<open>\<^verbatim>\<open>float(n)\<close> on an integer rounds too, and raises \<^verbatim>\<open>OverflowError\<close> (here \<open>None\<close>) where the
  rounded value is not finite.\<close>

definition float_of_int :: "int \<Rightarrow> pyfloat option" where
  "float_of_int n =
     (case round_double (n < 0) (of_int \<bar>n\<bar>) of
        PosInf \<Rightarrow> None | NegInf \<Rightarrow> None | f \<Rightarrow> Some f)"

text \<open>The number a string stands for in the classifier:
  \<^verbatim>\<open>
  try:
      if '.' in value:
          return float(value)
      return int(value)
  except ValueError:
      pass
  \<close>\<close>

definition parse_number :: "string \<Rightarrow> pyval option" where
  "parse_number v =
     (if CHR ''.'' \<in> set v then map_option PFloat (py_float v) else map_option PInt (py_int v))"

section \<open>The null pruner\<close>

text \<open>
  \<^verbatim>\<open>
  def remove_nulls(obj):
      if isinstance(obj, dict):
          return {k: remove_nulls(v) for k, v in obj.items()
                  if v is not None and (not isinstance(v, dict) or v)
                                   and (not isinstance(v, list) or v)}
      elif isinstance(obj, list):
          return [remove_nulls(item) for item in obj if item is not None]
      return obj
  \<close>
  The truth value of a dictionary or of a list is that it is not empty.
\<close>

fun is_dict :: "pyval \<Rightarrow> bool" where
  "is_dict (PDict d) = True"
| "is_dict v = False"

fun is_list :: "pyval \<Rightarrow> bool" where
  "is_list (PList xs) = True"
| "is_list v = False"

fun truthy_container :: "pyval \<Rightarrow> bool" where
  "truthy_container (PDict d) = (d \<noteq> [])"
| "truthy_container (PList xs) = (xs \<noteq> [])"
| "truthy_container v = True"

definition keeps :: "pyval \<Rightarrow> bool" where
  "keeps v = (v \<noteq> PNone \<and> (\<not> is_dict v \<or> truthy_container v) \<and> (\<not> is_list v \<or> truthy_container v))"

fun remove_nulls :: "pyval \<Rightarrow> pyval" where
  "remove_nulls (PDict d) = PDict (map (\<lambda>(k, v). (k, remove_nulls v)) (filter (\<lambda>(k, v). keeps v) d))"
| "remove_nulls (PList xs) = PList (map remove_nulls (filter (\<lambda>item. item \<noteq> PNone) xs))"
| "remove_nulls v = v"

section \<open>The field parser and the array parser\<close>

text \<open>
  Both loops read the content one character at a time. The classifier they call for each
  finished value is the argument \<open>pv\<close>: the classifier itself calls the loops on the inside
  of a bracket, so it is defined after them.

  The state of the loop of \<^verbatim>\<open>parse_fields_from_content\<close> (\<open>fields_dict\<close> is its \<^verbatim>\<open>fields\<close>):
\<close>

record fields_state =
  fields_dict :: dict
  current_field :: string
  current_value :: string
  in_field :: bool
  bracket_depth :: int

definition fields_init :: fields_state where
  "fields_init = \<lparr>fields_dict = [], current_field = [], current_value = [], in_field = True, bracket_depth = 0\<rparr>"

text \<open>
  \<^verbatim>\<open>
  if in_field: current_field += char
  else:        current_value += char
  \<close>
\<close>

definition add_char :: "char \<Rightarrow> fields_state \<Rightarrow> fields_state" where
  "add_char c st =
     (if in_field st then st\<lparr>current_field := current_field st @ [c]\<rparr>
      else st\<lparr>current_value := current_value st @ [c]\<rparr>)"

text \<open>
  \<^verbatim>\<open>
  field_name = current_field.strip()
  if field_name:
      fields[field_name] = parse_value_recursive(current_value.strip())
  \<close>
\<close>

definition store_field :: "(string \<Rightarrow> pyval) \<Rightarrow> fields_state \<Rightarrow> dict" where
  "store_field pv st =
     (let field_name = strip (current_field st)
      in if field_name \<noteq> [] then dict_set (fields_dict st) field_name (pv (strip (current_value st)))
         else fields_dict st)"

text \<open>One turn of the loop, on the character \<open>c\<close>, in the order of the \<^verbatim>\<open>if\<close>/\<^verbatim>\<open>elif\<close> chain.\<close>

definition fields_step :: "(string \<Rightarrow> pyval) \<Rightarrow> fields_state \<Rightarrow> char \<Rightarrow> fields_state" where
  "fields_step pv st c =
     (if c = CHR ''['' then add_char c (st\<lparr>bracket_depth := bracket_depth st + 1\<rparr>)
      else if c = CHR '']'' then add_char c (st\<lparr>bracket_depth := bracket_depth st - 1\<rparr>)
      else if c = CHR ''{'' then add_char c (st\<lparr>bracket_depth := bracket_depth st + 1\<rparr>)
      else if c = CHR ''}'' then add_char c (st\<lparr>bracket_depth := bracket_depth st - 1\<rparr>)
      else if c = CHR ''='' \<and> bracket_depth st = 0 \<and> in_field st then st\<lparr>in_field := False\<rparr>
      else if c = CHR '','' \<and> bracket_depth st = 0 then
        st\<lparr>fields_dict := store_field pv st, current_field := [], current_value := [], in_field := True\<rparr>
      else add_char c st)"

primrec fields_loop :: "(string \<Rightarrow> pyval) \<Rightarrow> string \<Rightarrow> fields_state \<Rightarrow> fields_state" where
  "fields_loop pv [] st = st"
| "fields_loop pv (c # cs) st = fields_loop pv cs (fields_step pv st c)"

definition parse_fields_with :: "(string \<Rightarrow> pyval) \<Rightarrow> string \<Rightarrow> dict" where
  "parse_fields_with pv content = store_field pv (fields_loop pv content fields_init)"

text \<open>The state of the loop of \<^verbatim>\<open>parse_array_items\<close>.\<close>

record items_state =
  items :: "pyval list"
  current_item :: string
  item_depth :: int

definition items_init :: items_state where
  "items_init = \<lparr>items = [], current_item = [], item_depth = 0\<rparr>"

text \<open>
  \<^verbatim>\<open>
  item = current_item.strip()
  if item:
      items.append(parse_value_recursive(item))
  \<close>
\<close>

definition store_item :: "(string \<Rightarrow> pyval) \<Rightarrow> items_state \<Rightarrow> pyval list" where
  "store_item pv st =
     (let item = strip (current_item st)
      in if item \<noteq> [] then items st @ [pv item] else items st)"

definition items_step :: "(string \<Rightarrow> pyval) \<Rightarrow> items_state \<Rightarrow> char \<Rightarrow> items_state" where
  "items_step pv st c =
     (if c = CHR ''['' \<or> c = CHR ''{'' then
        st\<lparr>item_depth := item_depth st + 1, current_item := current_item st @ [c]\<rparr>
      else if c = CHR '']'' \<or> c = CHR ''}'' then
        st\<lparr>item_depth := item_depth st - 1, current_item := current_item st @ [c]\<rparr>
      else if c = CHR '','' \<and> item_depth st = 0 then
        st\<lparr>items := store_item pv st, current_item := []\<rparr>
      else st\<lparr>current_item := current_item st @ [c]\<rparr>)"

primrec items_loop :: "(string \<Rightarrow> pyval) \<Rightarrow> string \<Rightarrow> items_state \<Rightarrow> items_state" where
  "items_loop pv [] st = st"
| "items_loop pv (c # cs) st = items_loop pv cs (items_step pv st c)"

definition parse_array_with :: "(string \<Rightarrow> pyval) \<Rightarrow> string \<Rightarrow> pyval list" where
  "parse_array_with pv content = store_item pv (items_loop pv content items_init)"

subsection \<open>The loops call the classifier on no more than they have read\<close>

lemma length_rstrip: "length (rstrip s) \<le> length s"
proof -
  have "length (dropWhile is_space (rev s)) \<le> length (rev s)"
    by (rule length_dropWhile_le)
  then show ?thesis by (simp add: rstrip_def)
qed

lemma length_strip: "length (strip s) \<le> length s"
proof -
  have "length (rstrip (lstrip s)) \<le> length (lstrip s)" by (rule length_rstrip)
  also have "\<dots> \<le> length s" by (simp add: lstrip_def length_dropWhile_le)
  finally show ?thesis by (simp add: strip_def)
qed

lemma store_field_agree:
  assumes "\<And>s. length s \<le> length (current_value st) \<Longrightarrow> f s = g s"
  shows "store_field f st = store_field g st"
  using assms length_strip [of "current_value st"] by (simp add: store_field_def Let_def)

lemma fields_step_agree:
  assumes "\<And>s. length s \<le> length (current_value st) \<Longrightarrow> f s = g s"
  shows "fields_step f st c = fields_step g st c"
  using store_field_agree [of st f g] assms by (simp add: fields_step_def)

lemma length_value_step: "length (current_value (fields_step f st c)) \<le> Suc (length (current_value st))"
  by (simp add: fields_step_def add_char_def)

lemma fields_loop_agree:
  "(\<And>s. length s \<le> length (current_value st) + length cs \<Longrightarrow> f s = g s)
   \<Longrightarrow> fields_loop f cs st = fields_loop g cs st"
proof (induction cs arbitrary: st)
  case Nil
  show ?case by simp
next
  case (Cons c cs)
  have step: "fields_step f st c = fields_step g st c"
    by (rule fields_step_agree) (simp add: Cons.prems)
  have "fields_loop f cs (fields_step g st c) = fields_loop g cs (fields_step g st c)"
  proof (rule Cons.IH)
    fix s :: string assume "length s \<le> length (current_value (fields_step g st c)) + length cs"
    with length_value_step [of g st c] have "length s \<le> length (current_value st) + length (c # cs)"
      by simp
    then show "f s = g s" by (rule Cons.prems)
  qed
  with step show ?case by simp
qed

lemma length_value_loop:
  "length (current_value (fields_loop f cs st)) \<le> length (current_value st) + length cs"
proof (induction cs arbitrary: st)
  case Nil
  show ?case by simp
next
  case (Cons c cs)
  from Cons.IH [of "fields_step f st c"] length_value_step [of f st c] show ?case by simp
qed

lemma parse_fields_with_cong [fundef_cong]:
  assumes "content = content'"
    and "\<And>s. length s \<le> length content' \<Longrightarrow> f s = g s"
  shows "parse_fields_with f content = parse_fields_with g content'"
proof -
  have loop: "fields_loop f content' fields_init = fields_loop g content' fields_init"
    by (rule fields_loop_agree) (simp add: assms(2) fields_init_def)
  have "length (current_value (fields_loop g content' fields_init)) \<le> length content'"
    using length_value_loop [of g content' fields_init] by (simp add: fields_init_def)
  then have "store_field f (fields_loop g content' fields_init) = store_field g (fields_loop g content' fields_init)"
    by (intro store_field_agree assms(2)) simp
  with loop show ?thesis by (simp add: parse_fields_with_def assms(1))
qed

lemma store_item_agree:
  assumes "\<And>s. length s \<le> length (current_item st) \<Longrightarrow> f s = g s"
  shows "store_item f st = store_item g st"
  using assms length_strip [of "current_item st"] by (simp add: store_item_def Let_def)

lemma items_step_agree:
  assumes "\<And>s. length s \<le> length (current_item st) \<Longrightarrow> f s = g s"
  shows "items_step f st c = items_step g st c"
  using store_item_agree [of st f g] assms by (simp add: items_step_def)

lemma length_item_step: "length (current_item (items_step f st c)) \<le> Suc (length (current_item st))"
  by (simp add: items_step_def)

lemma items_loop_agree:
  "(\<And>s. length s \<le> length (current_item st) + length cs \<Longrightarrow> f s = g s)
   \<Longrightarrow> items_loop f cs st = items_loop g cs st"
proof (induction cs arbitrary: st)
  case Nil
  show ?case by simp
next
  case (Cons c cs)
  have step: "items_step f st c = items_step g st c"
    by (rule items_step_agree) (simp add: Cons.prems)
  have "items_loop f cs (items_step g st c) = items_loop g cs (items_step g st c)"
  proof (rule Cons.IH)
    fix s :: string assume "length s \<le> length (current_item (items_step g st c)) + length cs"
    with length_item_step [of g st c] have "length s \<le> length (current_item st) + length (c # cs)"
      by simp
    then show "f s = g s" by (rule Cons.prems)
  qed
  with step show ?case by simp
qed

lemma length_item_loop:
  "length (current_item (items_loop f cs st)) \<le> length (current_item st) + length cs"
proof (induction cs arbitrary: st)
  case Nil
  show ?case by simp
next
  case (Cons c cs)
  from Cons.IH [of "items_step f st c"] length_item_step [of f st c] show ?case by simp
qed

lemma parse_array_with_cong [fundef_cong]:
  assumes "content = content'"
    and "\<And>s. length s \<le> length content' \<Longrightarrow> f s = g s"
  shows "parse_array_with f content = parse_array_with g content'"
proof -
  have loop: "items_loop f content' items_init = items_loop g content' items_init"
    by (rule items_loop_agree) (simp add: assms(2) items_init_def)
  have "length (current_item (items_loop g content' items_init)) \<le> length content'"
    using length_item_loop [of g content' items_init] by (simp add: items_init_def)
  then have "store_item f (items_loop g content' items_init) = store_item g (items_loop g content' items_init)"
    by (intro store_item_agree assms(2)) simp
  with loop show ?thesis by (simp add: parse_array_with_def assms(1))
qed

section \<open>The value classifier\<close>

text \<open>\<^verbatim>\<open>value[1:-1]\<close>\<close>

definition slice_inner :: "string \<Rightarrow> string" where
  "slice_inner s = butlast (drop 1 s)"

lemma match_to_last_bracket_shorter:
  "match_to_last_bracket r = Some g \<Longrightarrow> length g < length r"
  by (auto simp: match_to_last_bracket_def split: if_splits)

lemma match_wrapper_shorter: "match_wrapper opening s = Some g \<Longrightarrow> length g < length s"
  by (auto simp: match_wrapper_def split: if_splits dest!: match_to_last_bracket_shorter)

lemma match_nested_shorter: "match_nested s = Some (n, g) \<Longrightarrow> length g < length s"
proof -
  assume "match_nested s = Some (n, g)"
  then have "match_to_last_bracket (drop 1 (dropWhile is_word s)) = Some g"
    by (auto simp: match_nested_def Let_def split: if_splits)
  then have "length g < length (drop 1 (dropWhile is_word s))"
    by (rule match_to_last_bracket_shorter)
  also have "\<dots> \<le> length (dropWhile is_word s)" by simp
  also have "\<dots> \<le> length s" by (rule length_dropWhile_le)
  finally show ?thesis .
qed

lemma slice_inner_shorter: "s \<noteq> [] \<Longrightarrow> length (strip (slice_inner s)) < length s"
proof -
  assume "s \<noteq> []"
  then have "length (slice_inner s) < length s"
    by (cases s) (simp_all add: slice_inner_def)
  with length_strip [of "slice_inner s"] show ?thesis by simp
qed

text \<open>
  The body of \<^verbatim>\<open>parse_value_recursive\<close>, rule by rule in the order of the source, with \<open>pv\<close>
  for the calls of the function to itself (directly, and through the two loops). The
  argument is a string at every call of the module, so the guard \<^verbatim>\<open>value is None\<close> has no
  case here. A tagged object whose inside gives no field falls through to the rules
  after it.
\<close>

definition parse_value_with :: "(string \<Rightarrow> pyval) \<Rightarrow> string \<Rightarrow> pyval" where
  "parse_value_with pv v =
     (let value = strip v in
      if value = [] then PNone
      else if lower value = ''null'' \<or> lower value = ''none'' then PNone
      else if lower value = ''true'' then PBool True
      else if lower value = ''false'' then PBool False
      else if value = ''JsonNullable[null]'' then PNone
      else if value = ''Optional[null]'' then PNone
      else if value = ''[]'' then PList []
      else
        (case match_value_wrapper value of
           Some (type_name, inner) \<Rightarrow> PStr (strip inner)
         | None \<Rightarrow>
        (case match_wrapper ''Optional['' value of
           Some inner \<Rightarrow> if lower inner = ''null'' then PNone else pv inner
         | None \<Rightarrow>
        (case match_wrapper ''JsonNullable['' value of
           Some inner \<Rightarrow> if lower inner = ''null'' then PNone else pv inner
         | None \<Rightarrow>
        (case
           (case match_nested value of
              Some (type_name, inner_content) \<Rightarrow>
                (let parsed_fields = parse_fields_with pv inner_content
                 in if parsed_fields \<noteq> [] then Some (PDict (dict_set parsed_fields ''_type'' (PStr type_name)))
                    else None)
            | None \<Rightarrow> None)
         of
           Some tagged \<Rightarrow> tagged
         | None \<Rightarrow>
             if startswith value ''['' \<and> endswith value '']'' then
               (let inner = strip (slice_inner value)
                in if inner = [] then PList [] else PList (parse_array_with pv inner))
             else if startswith value ''{'' \<and> endswith value ''}'' then
               (let inner = strip (slice_inner value)
                in if inner = [] then PDict [] else PDict (parse_fields_with pv inner))
             else
               (case parse_number value of
                  Some number \<Rightarrow> number
                | None \<Rightarrow> PStr value))))))"

lemma parse_value_with_cong [fundef_cong]:
  assumes "v = v'"
    and agree: "\<And>s. length s < length v' \<Longrightarrow> f s = g s"
  shows "parse_value_with f v = parse_value_with g v'"
proof -
  have wrapped: "f inner = g inner" if "match_wrapper lit (strip v') = Some inner" for lit inner
    using match_wrapper_shorter [OF that] length_strip [of v'] by (intro agree) simp
  have nested: "parse_fields_with f inner = parse_fields_with g inner"
    if "match_nested (strip v') = Some (n, inner)" for n inner
  proof (rule parse_fields_with_cong [OF refl])
    fix s :: string assume "length s \<le> length inner"
    with match_nested_shorter [OF that] length_strip [of v'] show "f s = g s"
      by (intro agree) simp
  qed
  have fields_inside: "parse_fields_with f (strip (slice_inner (strip v'))) = parse_fields_with g (strip (slice_inner (strip v')))"
    if "strip v' \<noteq> []"
  proof (rule parse_fields_with_cong [OF refl])
    fix s :: string assume "length s \<le> length (strip (slice_inner (strip v')))"
    with slice_inner_shorter [OF that] length_strip [of v'] show "f s = g s"
      by (intro agree) simp
  qed
  have items_inside: "parse_array_with f (strip (slice_inner (strip v'))) = parse_array_with g (strip (slice_inner (strip v')))"
    if "strip v' \<noteq> []"
  proof (rule parse_array_with_cong [OF refl])
    fix s :: string assume "length s \<le> length (strip (slice_inner (strip v')))"
    with slice_inner_shorter [OF that] length_strip [of v'] show "f s = g s"
      by (intro agree) simp
  qed
  show ?thesis
    unfolding parse_value_with_def assms(1) Let_def
    by (auto split: option.splits simp: wrapped nested fields_inside items_inside)
qed

text \<open>The classifier: every call it makes to itself is on a shorter string.\<close>

function parse_value_recursive :: "string \<Rightarrow> pyval" where
  "parse_value_recursive v = parse_value_with parse_value_recursive v"
  by pat_completeness auto
termination
  by (relation "measure length") auto

declare parse_value_recursive.simps [simp del]

text \<open>\<^verbatim>\<open>parse_fields_from_content\<close>, \<^verbatim>\<open>parse_array_items\<close> and \<^verbatim>\<open>parse_map_items\<close>.\<close>

definition parse_fields_from_content :: "string \<Rightarrow> dict" where
  "parse_fields_from_content content = parse_fields_with parse_value_recursive content"

definition parse_array_items :: "string \<Rightarrow> pyval list" where
  "parse_array_items content = parse_array_with parse_value_recursive content"

definition parse_map_items :: "string \<Rightarrow> dict" where
  "parse_map_items content = parse_fields_from_content content"

section \<open>Status and amount\<close>

text \<open>
  \<^verbatim>\<open>str(status)\<close>: the text of \<^verbatim>\<open>None\<close>, of a boolean, of an integer and of a string is fixed
  here; the text that Python prints for a float, a list or a dictionary is the argument
  \<open>repr\<close>, and what is proved holds for every such text.
\<close>

function decimal :: "int \<Rightarrow> string" where
  "decimal n = (if n < 10 then [char_of (48 + n)] else decimal (n div 10) @ [char_of (48 + n mod 10)])"
  by pat_completeness auto
termination
  by (relation "measure nat") auto

declare decimal.simps [simp del]

definition str_int :: "int \<Rightarrow> string" where
  "str_int n = (if n < 0 then CHR ''-'' # decimal (- n) else decimal n)"

fun py_str :: "(pyval \<Rightarrow> string) \<Rightarrow> pyval \<Rightarrow> string" where
  "py_str repr PNone = ''None''"
| "py_str repr (PBool b) = (if b then ''True'' else ''False'')"
| "py_str repr (PInt n) = str_int n"
| "py_str repr (PStr s) = s"
| "py_str repr v = repr v"

text \<open>
  \<^verbatim>\<open>
  def normalize_status(status):
      if status is None:
          return 'unknown'
      status_str = str(status).lower()
      if 'succeeded' in status_str or 'success' in status_str:
          return 'success'
      elif 'failed' in status_str or 'failure' in status_str:
          return 'failed'
      elif 'pending' in status_str:
          return 'pending'
      elif 'cancelled' in status_str or 'canceled' in status_str:
          return 'cancelled'
      elif 'refunded' in status_str:
          return 'refunded'
      elif 'voided' in status_str:
          return 'voided'
      return str(status)
  \<close>
\<close>

definition normalize_status :: "(pyval \<Rightarrow> string) \<Rightarrow> pyval \<Rightarrow> string" where
  "normalize_status repr status =
     (if status = PNone then ''unknown''
      else
        (let status_str = lower (py_str repr status)
         in if contains status_str ''succeeded'' \<or> contains status_str ''success'' then ''success''
            else if contains status_str ''failed'' \<or> contains status_str ''failure'' then ''failed''
            else if contains status_str ''pending'' then ''pending''
            else if contains status_str ''cancelled'' \<or> contains status_str ''canceled'' then ''cancelled''
            else if contains status_str ''refunded'' then ''refunded''
            else if contains status_str ''voided'' then ''voided''
            else py_str repr status))"

text \<open>The exceptions that the conversions of \<^verbatim>\<open>convert_amount\<close> raise.\<close>

datatype py_error = ValueError | TypeError | OverflowError

text \<open>\<^verbatim>\<open>float(amount)\<close>\<close>

fun float_of_value :: "pyval \<Rightarrow> py_error + pyfloat" where
  "float_of_value PNone = Inl TypeError"
| "float_of_value (PBool b) = Inr (Finite (if b then 1 else 0))"
| "float_of_value (PInt n) = (case float_of_int n of None \<Rightarrow> Inl OverflowError | Some f \<Rightarrow> Inr f)"
| "float_of_value (PFloat f) = Inr f"
| "float_of_value (PStr s) = (case py_float s of None \<Rightarrow> Inl ValueError | Some f \<Rightarrow> Inr f)"
| "float_of_value (PList xs) = Inl TypeError"
| "float_of_value (PDict d) = Inl TypeError"

text \<open>\<^verbatim>\<open>int(value)\<close> on a float cuts the fraction off, and raises on an infinity and on the NaN.\<close>

fun int_of_float :: "pyfloat \<Rightarrow> py_error + int" where
  "int_of_float (Finite q) = Inr (if 0 \<le> q then \<lfloor>q\<rfloor> else \<lceil>q\<rceil>)"
| "int_of_float NegZero = Inr 0"
| "int_of_float PosInf = Inl OverflowError"
| "int_of_float NegInf = Inl OverflowError"
| "int_of_float NaN = Inl ValueError"

text \<open>\<^verbatim>\<open>value == i\<close> for a float and an integer, \<^verbatim>\<open>abs(value)\<close>, \<^verbatim>\<open>value >= r\<close> and \<^verbatim>\<open>value / d\<close>
  for a float and a finite number (\<open>d > 0\<close>).\<close>

fun float_eq_int :: "pyfloat \<Rightarrow> int \<Rightarrow> bool" where
  "float_eq_int (Finite q) i = (q = of_int i)"
| "float_eq_int NegZero i = (i = 0)"
| "float_eq_int f i = False"

fun float_abs :: "pyfloat \<Rightarrow> pyfloat" where
  "float_abs (Finite q) = Finite \<bar>q\<bar>"
| "float_abs NegZero = Finite 0"
| "float_abs NegInf = PosInf"
| "float_abs f = f"

fun float_ge :: "pyfloat \<Rightarrow> rat \<Rightarrow> bool" where
  "float_ge (Finite q) r = (r \<le> q)"
| "float_ge NegZero r = (r \<le> 0)"
| "float_ge PosInf r = True"
| "float_ge f r = False"

fun float_div :: "pyfloat \<Rightarrow> rat \<Rightarrow> pyfloat" where
  "float_div (Finite q) d = round_double (q < 0) (\<bar>q\<bar> / d)"
| "float_div f d = f"

text \<open>
  \<^verbatim>\<open>
  def convert_amount(amount):
      if amount is None:
          return 0.0
      try:
          value = float(amount)
          if value == int(value) and abs(value) >= 100:
              return value / 100.0
          return value
      except (ValueError, TypeError):
          return 0.0
  \<close>
  \<open>Inl\<close> is an exception that leaves the function.
\<close>

definition caught :: "py_error \<Rightarrow> bool" where
  "caught e = (e = ValueError \<or> e = TypeError)"

definition convert_amount :: "pyval \<Rightarrow> py_error + pyfloat" where
  "convert_amount amount =
     (if amount = PNone then Inr (Finite 0)
      else
        (case float_of_value amount of
           Inl e \<Rightarrow> if caught e then Inr (Finite 0) else Inl e
         | Inr value \<Rightarrow>
             (case int_of_float value of
                Inl e \<Rightarrow> if caught e then Inr (Finite 0) else Inl e
              | Inr i \<Rightarrow>
                  if float_eq_int value i \<and> float_ge (float_abs value) 100 then Inr (float_div value 100)
                  else Inr value)))"

section \<open>One transaction, and a text of several\<close>

text \<open>
  The dictionary that \<^verbatim>\<open>parse_transaction_text\<close> returns: a key that the function sets only
  under a condition is an optional field.
\<close>

record transaction =
  transaction_id :: "pyval option"
  timestamp :: "pyval option"
  status :: "string option"
  amount :: "pyfloat option"
  currency :: "pyval option"
  raw_text :: string
  json_full :: dict
  json_compact :: pyval

text \<open>\<^verbatim>\<open>parse_transaction_text\<close>: \<open>Inr None\<close> is the result \<^verbatim>\<open>None\<close>, \<open>Inl\<close> an exception.\<close>

definition parse_transaction_text :: "(pyval \<Rightarrow> string) \<Rightarrow> string \<Rightarrow> py_error + transaction option" where
  "parse_transaction_text repr text =
     (if text = [] \<or> strip text = [] then Inr None
      else
        (case match_transaction (strip text) of
           None \<Rightarrow> Inr None
         | Some content \<Rightarrow>
             (let full = parse_fields_from_content content
              in if full = [] then Inr None
                 else
                   (case (case dict_get full ''amount'' of
                            None \<Rightarrow> Inr None
                          | Some a \<Rightarrow> (case convert_amount a of Inl e \<Rightarrow> Inl e | Inr f \<Rightarrow> Inr (Some f)))
                    of
                      Inl e \<Rightarrow> Inl e
                    | Inr converted \<Rightarrow>
                        Inr (Some
                          \<lparr>transaction_id = dict_get full ''id'',
                           timestamp = (case dict_get full ''createdAt'' of
                                          Some t \<Rightarrow> Some t
                                        | None \<Rightarrow> dict_get full ''updatedAt''),
                           status = map_option (normalize_status repr) (dict_get full ''status''),
                           amount = converted,
                           currency = dict_get full ''currency'',
                           raw_text = strip text,
                           json_full = full,
                           json_compact = remove_nulls (PDict full)\<rparr>)))))"

text \<open>
  \<^verbatim>\<open>parse_multiple_transactions\<close>. The parts that its loop hands to
  \<^verbatim>\<open>parse_transaction_text\<close> are the pieces of the split, each stripped, the empty ones
  left out (\<^verbatim>\<open>part = part.strip()\<close>, \<^verbatim>\<open>if not part: continue\<close>).
\<close>

definition record_chunks :: "string \<Rightarrow> string list" where
  "record_chunks text = filter (\<lambda>part. part \<noteq> []) (map strip (split_before ''Transaction['' [] text))"

fun parse_chunks :: "(pyval \<Rightarrow> string) \<Rightarrow> string list \<Rightarrow> py_error + transaction list" where
  "parse_chunks repr [] = Inr []"
| "parse_chunks repr (part # parts) =
     (case parse_transaction_text repr part of
        Inl e \<Rightarrow> Inl e
      | Inr parsed \<Rightarrow>
          (case parse_chunks repr parts of
             Inl e \<Rightarrow> Inl e
           | Inr transactions \<Rightarrow>
               Inr (case parsed of Some t \<Rightarrow> t # transactions | None \<Rightarrow> transactions)))"

definition parse_multiple_transactions :: "(pyval \<Rightarrow> string) \<Rightarrow> string \<Rightarrow> py_error + transaction list" where
  "parse_multiple_transactions repr text = parse_chunks repr (record_chunks text)"

section \<open>The splitter of the specification\<close>

text \<open>
  The specification describes both loops through one splitter: it scans left to right
  with a depth counter, one up on an opening square or curly bracket, one down on a
  closing one, and starts a new segment only where the separator stands at depth 0;
  every other character is copied into the segment. Empty content has no segment.
  \<open>split_scan\<close> is the scan from a given depth, \<open>split_top_level\<close> the splitter.
\<close>

fun cons_head :: "char \<Rightarrow> string list \<Rightarrow> string list" where
  "cons_head c [] = [[c]]"
| "cons_head c (s # ss) = (c # s) # ss"

fun split_scan :: "char \<Rightarrow> int \<Rightarrow> string \<Rightarrow> string list" where
  "split_scan sep d [] = [[]]"
| "split_scan sep d (c # cs) =
     (if c = CHR ''['' \<or> c = CHR ''{'' then cons_head c (split_scan sep (d + 1) cs)
      else if c = CHR '']'' \<or> c = CHR ''}'' then cons_head c (split_scan sep (d - 1) cs)
      else if c = sep \<and> d = 0 then [] # split_scan sep 0 cs
      else cons_head c (split_scan sep d cs))"

definition split_top_level :: "string \<Rightarrow> char \<Rightarrow> string list" where
  "split_top_level content sep = (if content = [] then [] else split_scan sep 0 content)"

text \<open>
  A segment of field content is a name and a value: they are parted by the first \<^verbatim>\<open>=\<close> that
  stands at depth 0, and a segment without one is all name. \<open>top_level_eq\<close> says that
  there is such a \<^verbatim>\<open>=\<close>.
\<close>

fun top_level_eq :: "int \<Rightarrow> string \<Rightarrow> bool" where
  "top_level_eq d [] = False"
| "top_level_eq d (c # cs) =
     (if c = CHR ''['' \<or> c = CHR ''{'' then top_level_eq (d + 1) cs
      else if c = CHR '']'' \<or> c = CHR ''}'' then top_level_eq (d - 1) cs
      else if c = CHR ''='' \<and> d = 0 then True
      else top_level_eq d cs)"

fun split_field :: "int \<Rightarrow> string \<Rightarrow> string \<times> string" where
  "split_field d [] = ([], [])"
| "split_field d (c # cs) =
     (if c = CHR ''['' \<or> c = CHR ''{'' then (case split_field (d + 1) cs of (f, v) \<Rightarrow> (c # f, v))
      else if c = CHR '']'' \<or> c = CHR ''}'' then (case split_field (d - 1) cs of (f, v) \<Rightarrow> (c # f, v))
      else if c = CHR ''='' \<and> d = 0 then ([], cs)
      else (case split_field d cs of (f, v) \<Rightarrow> (c # f, v)))"

text \<open>What one segment does to the mapping: nothing when its trimmed name is empty.\<close>

definition put_field :: "dict \<Rightarrow> string \<times> string \<Rightarrow> dict" where
  "put_field d fv =
     (if strip (fst fv) \<noteq> [] then dict_set d (strip (fst fv)) (parse_value_recursive (strip (snd fv))) else d)"

definition store_segment :: "dict \<Rightarrow> string \<Rightarrow> dict" where
  "store_segment d seg = put_field d (split_field 0 seg)"

text \<open>
  The state of the field loop in the middle of a segment, as a name and a value: what the
  loop has read of the segment, and what the rest \<open>s\<close> of the segment adds to it.
\<close>

definition pending :: "fields_state \<Rightarrow> string \<Rightarrow> string \<times> string" where
  "pending st s =
     (if in_field st then
        (case split_field (bracket_depth st) s of (f, v) \<Rightarrow> (current_field st @ f, current_value st @ v))
      else (current_field st, current_value st @ s))"


section \<open>The status rules and the batch split of the specification\<close>

text \<open>
  The specification gives the status normalisation as a list of rules in priority order,
  each a set of substrings and the status they stand for; the first rule with a substring
  in the lower-cased text wins.
\<close>

definition status_rules :: "(string list \<times> string) list" where
  "status_rules =
     [([''succeeded'', ''success''], ''success''),
      ([''failed'', ''failure''], ''failed''),
      ([''pending''], ''pending''),
      ([''cancelled'', ''canceled''], ''cancelled''),
      ([''refunded''], ''refunded''),
      ([''voided''], ''voided'')]"

fun first_match :: "(string list \<times> string) list \<Rightarrow> string \<Rightarrow> string option" where
  "first_match [] s = None"
| "first_match ((keys, out) # rules) s = (if list_ex (contains s) keys then Some out else first_match rules s)"

text \<open>The number of places of a text where the literal stands.\<close>

fun occurrences :: "string \<Rightarrow> string \<Rightarrow> nat" where
  "occurrences lit [] = 0"
| "occurrences lit (c # cs) = (if prefix lit (c # cs) then Suc (occurrences lit cs) else occurrences lit cs)"



section \<open>Properties\<close>

subsection \<open>Strings and patterns\<close>

lemma dropWhile_hd: "xs \<noteq> [] \<Longrightarrow> \<not> P (hd xs) \<Longrightarrow> dropWhile P xs = xs"
  by (cases xs) simp_all

lemma strip_id: "s \<noteq> [] \<Longrightarrow> \<not> is_space (hd s) \<Longrightarrow> \<not> is_space (last s) \<Longrightarrow> strip s = s"
  by (simp add: strip_def lstrip_def rstrip_def dropWhile_hd hd_rev)

lemma lower_eq_Nil [simp]: "lower s = [] \<longleftrightarrow> s = []"
  by (simp add: lower_def)

lemma last_lower: "s \<noteq> [] \<Longrightarrow> last (lower s) = lower_char (last s)"
  by (simp add: lower_def last_map)

lemma lower_bracket_last:
  assumes "s \<noteq> []" "last s = CHR '']''"
  shows "lower s \<noteq> ''null''" "lower s \<noteq> ''none''" "lower s \<noteq> ''true''" "lower s \<noteq> ''false''"
proof -
  have "last (lower s) = CHR '']''"
    using assms by (simp add: last_lower lower_char_def)
  then show "lower s \<noteq> ''null''" "lower s \<noteq> ''none''" "lower s \<noteq> ''true''" "lower s \<noteq> ''false''"
    by auto
qed

lemma not_space_bracket [simp]: "\<not> is_space CHR '']''" "\<not> is_space CHR ''[''"
  by (simp_all add: is_space_def)

lemma not_word_bracket [simp]: "\<not> is_word CHR '']''" "\<not> is_word CHR ''[''" "\<not> is_word CHR '' ''"
  by (simp_all add: is_word_def)

lemma word_not_space: "is_word c \<Longrightarrow> \<not> is_space c"
  by (auto simp: is_word_def is_space_def Let_def)

lemma classify_bracketed_strip:
  assumes "strip v = value" "value \<noteq> []" "last value = CHR '']''"
    and "value \<noteq> ''JsonNullable[null]''" "value \<noteq> ''Optional[null]''" "value \<noteq> ''[]''"
  shows "parse_value_recursive v =
        (case match_value_wrapper value of
           Some (type_name, inner) \<Rightarrow> PStr (strip inner)
         | None \<Rightarrow>
        (case match_wrapper ''Optional['' value of
           Some inner \<Rightarrow> if lower inner = ''null'' then PNone else parse_value_recursive inner
         | None \<Rightarrow>
        (case match_wrapper ''JsonNullable['' value of
           Some inner \<Rightarrow> if lower inner = ''null'' then PNone else parse_value_recursive inner
         | None \<Rightarrow>
        (case
           (case match_nested value of
              Some (type_name, inner_content) \<Rightarrow>
                (let parsed_fields = parse_fields_from_content inner_content
                 in if parsed_fields \<noteq> [] then Some (PDict (dict_set parsed_fields ''_type'' (PStr type_name)))
                    else None)
            | None \<Rightarrow> None)
         of
           Some tagged \<Rightarrow> tagged
         | None \<Rightarrow>
             if startswith value ''['' \<and> endswith value '']'' then
               (let inner = strip (slice_inner value)
                in if inner = [] then PList [] else PList (parse_array_items inner))
             else if startswith value ''{'' \<and> endswith value ''}'' then
               (let inner = strip (slice_inner value)
                in if inner = [] then PDict [] else PDict (parse_fields_from_content inner))
             else
               (case parse_number value of
                  Some number \<Rightarrow> number
                | None \<Rightarrow> PStr value)))))"
  unfolding parse_fields_from_content_def parse_array_items_def
  by (subst parse_value_recursive.simps)
     (simp add: parse_value_with_def assms lower_bracket_last [OF assms(2,3)])

lemmas classify_bracketed = classify_bracketed_strip [OF strip_id]

lemma takeWhile_word_ident:
  "\<forall>c\<in>set ident. is_word c \<Longrightarrow> \<not> is_word c' \<Longrightarrow> takeWhile is_word (ident @ c' # r) = ident"
  by (simp add: takeWhile_tail)

lemma dropWhile_word_ident:
  "\<forall>c\<in>set ident. is_word c \<Longrightarrow> \<not> is_word c' \<Longrightarrow> dropWhile is_word (ident @ c' # r) = c' # r"
  by (simp add: dropWhile_append3)

lemma value_wrapper_match:
  assumes "ident \<noteq> []" "\<forall>c\<in>set ident. is_word c" "inner \<noteq> []" "CHR '']'' \<notin> set inner"
  shows "match_value_wrapper (ident @ '' [value='' @ inner @ '']'') = Some (ident, inner)"
proof -
  have tw: "takeWhile (\<lambda>c. c \<noteq> CHR '']'') (inner @ '']'') = inner"
    using assms(4) by (auto simp: takeWhile_tail)
  have dw: "dropWhile (\<lambda>c. c \<noteq> CHR '']'') (inner @ '']'') = '']''"
    using assms(4) by (auto simp: dropWhile_append3)
  show ?thesis
    using assms(1,2,3) tw dw
    by (simp add: match_value_wrapper_def takeWhile_word_ident dropWhile_word_ident is_space_def)
qed


lemma match_last_bracket_snoc: "inner \<noteq> [] \<Longrightarrow> match_to_last_bracket (inner @ '']'') = Some inner"
  by (cases inner) (simp_all add: match_to_last_bracket_def)

lemma nested_match:
  assumes "ident \<noteq> []" "\<forall>c\<in>set ident. is_word c" "inner \<noteq> []"
  shows "match_nested (ident @ ''['' @ inner @ '']'') = Some (ident, inner)"
  using assms by (simp add: match_nested_def takeWhile_word_ident dropWhile_word_ident match_last_bracket_snoc)

lemma ident_of_literal:
  assumes "\<forall>c\<in>set ident. is_word c" "ident @ ''['' @ r = lit"
  shows "takeWhile is_word lit = ident"
  using assms by (auto simp: takeWhile_word_ident)

lemma wrapper_needs_name:
  assumes "\<forall>c\<in>set ident. is_word c" "\<forall>c\<in>set name. is_word c" "ident \<noteq> name"
  shows "match_wrapper (name @ ''['') (ident @ ''['' @ r) = None"
proof -
  have "\<not> prefix (name @ ''['') (ident @ ''['' @ r)"
  proof
    assume "prefix (name @ ''['') (ident @ ''['' @ r)"
    then obtain z where z: "ident @ ''['' @ r = (name @ ''['') @ z" by (auto simp: prefix_def)
    have "takeWhile is_word (ident @ ''['' @ r) = ident" using assms(1) by (simp add: takeWhile_word_ident)
    moreover have "takeWhile is_word ((name @ ''['') @ z) = name" using assms(2) by (simp add: takeWhile_word_ident)
    ultimately show False using z assms(3) by simp
  qed
  then show ?thesis by (simp add: match_wrapper_def)
qed








lemma cons_head_not_empty [simp]: "cons_head c ss \<noteq> []"
  by (cases ss) simp_all

lemma split_scan_not_empty [simp]: "split_scan sep d cs \<noteq> []"
  by (cases cs) simp_all

lemma hd_cons_head [simp]: "ss \<noteq> [] \<Longrightarrow> hd (cons_head c ss) = c # hd ss"
  by (cases ss) simp_all

lemma tl_cons_head [simp]: "ss \<noteq> [] \<Longrightarrow> tl (cons_head c ss) = tl ss"
  by (cases ss) simp_all

lemma strip_Nil [simp]: "strip [] = []"
  by (simp add: strip_def lstrip_def rstrip_def)

lemma items_loop_split:
  "store_item pv (items_loop pv cs st) =
     items st @ map pv (filter (\<lambda>s. s \<noteq> [])
       (map strip ((current_item st @ hd (split_scan CHR '','' (item_depth st) cs))
                   # tl (split_scan CHR '','' (item_depth st) cs))))"
proof (induction cs arbitrary: st)
  case Nil
  show ?case by (simp add: store_item_def)
next
  case (Cons c cs)
  obtain s0 rest where top: "split_scan CHR '','' 0 cs = s0 # rest"
    by (cases "split_scan CHR '','' 0 cs") simp_all
  have "store_item pv (items_loop pv (c # cs) st) = store_item pv (items_loop pv cs (items_step pv st c))"
    by simp
  also have "\<dots> = items (items_step pv st c) @ map pv (filter (\<lambda>s. s \<noteq> [])
       (map strip ((current_item (items_step pv st c) @ hd (split_scan CHR '','' (item_depth (items_step pv st c)) cs))
                   # tl (split_scan CHR '','' (item_depth (items_step pv st c)) cs))))"
    by (rule Cons.IH)
  also have "\<dots> = items st @ map pv (filter (\<lambda>s. s \<noteq> [])
       (map strip ((current_item st @ hd (split_scan CHR '','' (item_depth st) (c # cs)))
                   # tl (split_scan CHR '','' (item_depth st) (c # cs)))))"
    by (simp add: items_step_def store_item_def Let_def top)
  finally show ?case .
qed

lemma array_items_split:
  "parse_array_items content =
     map parse_value_recursive (filter (\<lambda>s. s \<noteq> []) (map strip (split_top_level content CHR '','')))"
proof (cases "content = []")
  case True
  then show ?thesis
    by (simp add: parse_array_items_def parse_array_with_def store_item_def items_init_def split_top_level_def)
next
  case False
  have "hd (split_scan CHR '','' 0 content) # tl (split_scan CHR '','' 0 content) = split_scan CHR '','' 0 content"
    by simp
  then show ?thesis
    using False items_loop_split [of parse_value_recursive content items_init]
    by (simp add: parse_array_items_def parse_array_with_def items_init_def split_top_level_def)
qed

subsection \<open>The loops and the splitter\<close>

lemma classify_empty: "parse_value_recursive [] = PNone"
  by (subst parse_value_recursive.simps) (simp add: parse_value_with_def)

lemma no_eq_split_field: "\<not> top_level_eq d seg \<Longrightarrow> split_field d seg = (seg, [])"
  by (induction seg arbitrary: d) (auto split: if_splits)

lemma store_field_put:
  "store_field parse_value_recursive st = put_field (fields_dict st) (current_field st, current_value st)"
  by (simp add: store_field_def put_field_def Let_def)

lemma fields_loop_split:
  "store_field parse_value_recursive (fields_loop parse_value_recursive cs st) =
     foldl store_segment
       (put_field (fields_dict st) (pending st (hd (split_scan CHR '','' (bracket_depth st) cs))))
       (tl (split_scan CHR '','' (bracket_depth st) cs))"
proof (induction cs arbitrary: st)
  case Nil
  show ?case by (simp add: store_field_put pending_def)
next
  case (Cons c cs)
  obtain s0 rest where top: "split_scan CHR '','' 0 cs = s0 # rest"
    by (cases "split_scan CHR '','' 0 cs") simp_all
  let ?st = "fields_step parse_value_recursive st c"
  have "store_field parse_value_recursive (fields_loop parse_value_recursive (c # cs) st)
        = store_field parse_value_recursive (fields_loop parse_value_recursive cs ?st)"
    by simp
  also have "\<dots> = foldl store_segment
       (put_field (fields_dict ?st) (pending ?st (hd (split_scan CHR '','' (bracket_depth ?st) cs))))
       (tl (split_scan CHR '','' (bracket_depth ?st) cs))"
    by (rule Cons.IH)
  also have "\<dots> = foldl store_segment
       (put_field (fields_dict st) (pending st (hd (split_scan CHR '','' (bracket_depth st) (c # cs)))))
       (tl (split_scan CHR '','' (bracket_depth st) (c # cs)))"
    by (simp add: fields_step_def add_char_def pending_def store_field_put store_segment_def top
          split: prod.splits)
  finally show ?case .
qed

lemma fields_as_segments:
  "parse_fields_from_content content = foldl store_segment [] (split_top_level content CHR '','')"
proof (cases "content = []")
  case True
  then show ?thesis
    by (simp add: parse_fields_from_content_def parse_fields_with_def store_field_def fields_init_def
          split_top_level_def)
next
  case False
  obtain s0 rest where top: "split_scan CHR '','' 0 content = s0 # rest"
    by (cases "split_scan CHR '','' 0 content") simp_all
  show ?thesis
    using False fields_loop_split [of content fields_init]
    by (simp add: parse_fields_from_content_def parse_fields_with_def fields_init_def split_top_level_def
          pending_def store_segment_def top split: prod.splits)
qed

lemma keys_dict_set: "fst ` set (dict_set d k v) = insert k (fst ` set d)"
  by (induction d k v rule: dict_set.induct) auto

lemma dict_has_set: "dict_has (dict_set d k v) k' \<longleftrightarrow> k' = k \<or> dict_has d k'"
  by (simp add: dict_has_def keys_dict_set)

lemma dict_get_set: "dict_get (dict_set d k v) k' = (if k' = k then Some v else dict_get d k')"
  by (induction d) (auto simp: dict_get_def)

lemma dict_has_put: "dict_has d k \<Longrightarrow> dict_has (put_field d fv) k"
  by (simp add: put_field_def dict_has_set)

lemma dict_has_segments: "dict_has d k \<Longrightarrow> dict_has (foldl store_segment d segs) k"
  by (induction segs arbitrary: d) (simp_all add: store_segment_def dict_has_put)

lemma dict_get_segments:
  "\<forall>seg\<in>set segs. strip (fst (split_field 0 seg)) \<noteq> k \<Longrightarrow>
   dict_get (foldl store_segment d segs) k = dict_get d k"
  by (induction segs arbitrary: d) (auto simp: store_segment_def put_field_def dict_get_set)

lemma segment_without_eq:
  assumes "\<not> top_level_eq 0 seg" "strip seg \<noteq> []"
  shows "store_segment d seg = dict_set d (strip seg) PNone"
  using assms by (simp add: store_segment_def put_field_def no_eq_split_field classify_empty)


subsection \<open>The batch split\<close>


lemma ball_hd_tl: "xs \<noteq> [] \<Longrightarrow> P (hd xs) \<Longrightarrow> \<forall>x\<in>set (tl xs). P x \<Longrightarrow> \<forall>x\<in>set xs. P x"
  by (cases xs) simp_all

lemma filter_map_hd_tl:
  "xs \<noteq> [] \<Longrightarrow> filter P (map f xs) = filter P [f (hd xs)] @ filter P (map f (tl xs))"
  by (cases xs) simp_all

lemma split_before_not_empty [simp]: "split_before lit cur cs \<noteq> []"
  by (induction cs arbitrary: cur) simp_all

lemma concat_split_before: "concat (split_before lit cur cs) = cur @ cs"
  by (induction cs arbitrary: cur) simp_all

lemma length_split_before: "length (split_before lit cur cs) = Suc (occurrences lit cs)"
  by (induction cs arbitrary: cur) simp_all

lemma split_before_skip:
  "lit \<noteq> [] \<Longrightarrow> hd lit \<notin> set pre \<Longrightarrow> split_before lit cur (pre @ rest) = split_before lit (cur @ pre) rest"
proof (induction pre arbitrary: cur)
  case Nil
  show ?case by simp
next
  case (Cons c pre)
  then have "\<not> prefix lit (c # pre @ rest)"
    by (cases lit) auto
  with Cons show ?case by simp
qed

lemma hd_split_before: "prefix cur (hd (split_before lit cur cs))"
proof (induction cs arbitrary: cur)
  case Nil
  show ?case by simp
next
  case (Cons c cs)
  from Cons [of "cur @ [c]"] have "prefix cur (hd (split_before lit (cur @ [c]) cs))"
    using append_prefixD by blast
  then show ?case by simp
qed

lemma later_pieces:
  "\<forall>p\<in>set (tl (split_before ''Transaction['' cur cs)). prefix ''Transaction['' p"
proof (induction cs arbitrary: cur)
  case Nil
  show ?case by simp
next
  case (Cons c cs)
  show ?case
  proof (cases "prefix ''Transaction['' (c # cs)")
    case False
    then have "split_before ''Transaction['' cur (c # cs) = split_before ''Transaction['' (cur @ [c]) cs"
      by (simp only: split_before.simps if_False)
    with Cons [of "cur @ [c]"] show ?thesis by (simp only:)
  next
    case True
    then obtain rest where rest: "c # cs = ''Transaction['' @ rest" by (auto simp: prefix_def)
    then have cs: "c = CHR ''T''" "cs = ''ransaction['' @ rest" by simp_all
    have "split_before ''Transaction['' [c] cs = split_before ''Transaction['' ([c] @ ''ransaction['') rest"
      unfolding cs(2) by (rule split_before_skip) simp_all
    then have h: "prefix ''Transaction['' (hd (split_before ''Transaction['' [c] cs))"
      using hd_split_before [of "''Transaction[''" "''Transaction[''" rest] cs(1) by simp
    have t: "\<forall>p\<in>set (tl (split_before ''Transaction['' [c] cs)). prefix ''Transaction['' p"
      by (rule Cons)
    have "\<forall>p\<in>set (split_before ''Transaction['' [c] cs). prefix ''Transaction['' p"
      using split_before_not_empty h t by (rule ball_hd_tl)
    moreover have "split_before ''Transaction['' cur (c # cs) = cur # split_before ''Transaction['' [c] cs"
      using True by (simp only: split_before.simps if_True)
    ultimately show ?thesis by (simp only: list.sel)
  qed
qed

lemma strip_keeps_literal:
  assumes "prefix ''Transaction['' p"
  shows "prefix ''Transaction['' (strip p)"
proof -
  from assms obtain r where p: "p = ''Transaction['' @ r" by (auto simp: prefix_def)
  have l: "lstrip p = p" by (simp add: p lstrip_def is_space_def)
  have "rstrip p = ''Transaction['' @ rstrip r"
    by (simp add: p rstrip_def dropWhile_append is_space_def)
  with l show ?thesis by (simp add: strip_def)
qed

lemma no_literal_one_piece: "\<not> contains cs lit \<Longrightarrow> split_before lit cur cs = [cur @ cs]"
  by (induction cs arbitrary: cur) simp_all


lemma two_records:
  "record_chunks ''Transaction[id=1]Transaction[id=2]'' = [''Transaction[id=1]'', ''Transaction[id=2]'']"
  "parse_multiple_transactions repr ''Transaction[id=1]Transaction[id=2]'' =
     Inr [\<lparr>transaction_id = Some (PInt 1), timestamp = None, status = None, amount = None, currency = None,
           raw_text = ''Transaction[id=1]'', json_full = [(''id'', PInt 1)], json_compact = PDict [(''id'', PInt 1)]\<rparr>,
          \<lparr>transaction_id = Some (PInt 2), timestamp = None, status = None, amount = None, currency = None,
           raw_text = ''Transaction[id=2]'', json_full = [(''id'', PInt 2)], json_compact = PDict [(''id'', PInt 2)]\<rparr>]"
  by code_simp+

subsection \<open>Rounding to a float\<close>


lemma pow2_power_int: "pow2 e = power_int 2 e"
  by (simp add: pow2_def power_int_def power_one_over inverse_eq_divide)

lemma bit_length_pos: "0 < n \<Longrightarrow> 0 < bit_length n"
proof -
  assume "0 < n"
  moreover have "0 \<le> bit_length m" for m
    by (induction m rule: bit_length.induct) (subst bit_length.simps, simp)
  ultimately show ?thesis
    using bit_length.simps [of n] by (smt (verit))
qed

lemma bit_length_bounds:
  "0 < n \<Longrightarrow> 2 ^ nat (bit_length n - 1) \<le> n \<and> n < 2 ^ nat (bit_length n)"
proof (induction n rule: bit_length.induct)
  case (1 n)
  show ?case
  proof (cases "n div 2 = 0")
    case True
    with 1(2) have "n = 1" by presburger
    then show ?thesis by (simp add: bit_length.simps [of 1] bit_length.simps [of 0])
  next
    case False
    with 1(2) have pos: "0 < n div 2" by presburger
    from 1(1) pos 1(2) have ih: "2 ^ nat (bit_length (n div 2) - 1) \<le> n div 2" "n div 2 < 2 ^ nat (bit_length (n div 2))"
      by simp_all
    have bl: "bit_length n = 1 + bit_length (n div 2)"
      using 1(2) by (subst bit_length.simps) simp
    have b1: "0 < bit_length (n div 2)" using pos by (rule bit_length_pos)
    have e1: "nat (bit_length n - 1) = Suc (nat (bit_length (n div 2) - 1))"
      using b1 bl by simp
    have e2: "nat (bit_length n) = Suc (nat (bit_length (n div 2)))"
      using b1 bl by simp
    have "2 * (n div 2) \<le> n" "n \<le> 2 * (n div 2) + 1" by presburger+
    with ih show ?thesis unfolding e1 e2 by simp
  qed
qed

lemma floor_log2_lower:
  assumes "0 < a"
  shows "pow2 (floor_log2 a) \<le> a"
proof -
  obtain p d where q: "quotient_of a = (p, d)" by (cases "quotient_of a")
  then have d: "0 < d" and a: "a = of_int p / of_int d"
    by (rule quotient_of_denom_pos, rule quotient_of_div)
  from assms a d have p: "0 < p" by (simp add: zero_less_divide_iff)
  let ?k = "bit_length p - bit_length d"
  show ?thesis
  proof (cases "pow2 ?k \<le> a")
    case True
    then show ?thesis by (simp add: floor_log2_def q)
  next
    case False
    have "(2::int) ^ nat (bit_length p - 1) \<le> p" using bit_length_bounds [OF p] by simp
    then have "(of_int (2 ^ nat (bit_length p - 1)) :: rat) \<le> of_int p" by (simp only: of_int_le_iff)
    then have lo: "power_int 2 (bit_length p - 1) \<le> (of_int p :: rat)"
      using bit_length_pos [OF p] by (simp add: power_int_def)
    have "d < 2 ^ nat (bit_length d)" using bit_length_bounds [OF d] by simp
    then have "(of_int d :: rat) < of_int (2 ^ nat (bit_length d))" by (simp only: of_int_less_iff)
    then have hi: "(of_int d :: rat) \<le> power_int 2 (bit_length d)"
      using bit_length_pos [OF d] by (simp add: power_int_def)
    have "power_int 2 (?k - 1) = (power_int 2 (bit_length p - 1) :: rat) / power_int 2 (bit_length d)"
      using power_int_diff [of "2::rat" "bit_length p - 1" "bit_length d"] by (simp add: algebra_simps)
    also have "\<dots> \<le> of_int p / of_int d"
      using lo hi d p by (intro frac_le) simp_all
    finally have "pow2 (?k - 1) \<le> a" by (simp add: pow2_power_int a)
    with False show ?thesis by (simp add: floor_log2_def q)
  qed
qed

lemma round_half_even_ge: "of_int N \<le> x \<Longrightarrow> N \<le> round_half_even x"
proof -
  assume "of_int N \<le> x"
  then have "N \<le> \<lfloor>x\<rfloor>" by (simp add: le_floor_iff)
  then show ?thesis by (simp add: round_half_even_def Let_def)
qed

lemma round_double_overflow:
  assumes "2 ^ 1024 \<le> a"
  shows "round_double neg a = signed_inf neg"
proof -
  have a0: "0 < a" using assms by (rule less_le_trans [rotated]) simp
  define e where "e = max (floor_log2 a - 52) (- 1074)"
  define R where "R = round_half_even (a / pow2 e)"
  have pe: "0 < pow2 e" by (simp add: pow2_power_int)
  have a1024: "pow2 1024 \<le> a" using assms by (simp add: pow2_def)
  have "pow2 1024 \<le> of_int R * pow2 e"
  proof (cases "e \<le> 1024")
    case True
    define N :: int where "N = 2 ^ nat (1024 - e)"
    have N: "of_int N = pow2 1024 / pow2 e"
      using True power_int_diff [of "2::rat" 1024 e]
      by (simp add: N_def pow2_power_int power_int_def)
    also have "\<dots> \<le> a / pow2 e" using a1024 pe by (simp add: divide_right_mono)
    finally have "N \<le> R" unfolding R_def by (rule round_half_even_ge)
    then have "of_int N * pow2 e \<le> of_int R * pow2 e" using pe by simp
    with N pe show ?thesis by simp
  next
    case False
    then have "e = floor_log2 a - 52" by (simp add: e_def max_def split: if_splits)
    then have "power_int (2::rat) e \<le> power_int 2 (floor_log2 a)"
      by (intro power_int_increasing) simp_all
    then have "pow2 e \<le> pow2 (floor_log2 a)" by (simp only: pow2_power_int)
    also have "\<dots> \<le> a" using a0 by (rule floor_log2_lower)
    finally have "of_int 1 \<le> a / pow2 e" using pe by simp
    then have "1 \<le> R" unfolding R_def by (rule round_half_even_ge)
    then have "pow2 e \<le> of_int R * pow2 e" using pe by simp
    moreover have "power_int (2::rat) 1024 \<le> power_int 2 e"
      by (rule power_int_increasing) (use False in simp_all)
    then have "pow2 1024 \<le> pow2 e" by (simp only: pow2_power_int)
    ultimately show ?thesis by simp
  qed
  then show ?thesis
    using a0 by (simp add: round_double_def Let_def e_def [symmetric] R_def [symmetric])
qed

lemma float_of_int_overflow: "2 ^ 1024 \<le> n \<Longrightarrow> float_of_int n = None"
proof -
  assume n: "(2::int) ^ 1024 \<le> n"
  then have "(2::int) ^ 1024 \<le> \<bar>n\<bar>" by linarith
  then have "(of_int (2 ^ 1024) :: rat) \<le> of_int \<bar>n\<bar>" by (simp only: of_int_le_iff)
  then have "round_double (n < 0) (of_int \<bar>n\<bar>) = signed_inf (n < 0)"
    by (intro round_double_overflow) simp
  moreover have "\<not> n < 0" using n by (smt (verit) zero_le_power)
  ultimately show ?thesis by (simp add: float_of_int_def signed_inf_def)
qed


subsection \<open>The null pruner\<close>

lemma keeps_iff: "keeps v \<longleftrightarrow> v \<noteq> PNone \<and> v \<noteq> PList [] \<and> v \<noteq> PDict []"
  by (cases v) (simp_all add: keeps_def)

text \<open>
  Claim C1. The pruner keeps an entry of an object exactly when the value it had before
  pruning is not \<open>PNone\<close>, not the empty list and not the empty object, and it stores the
  pruned value under each key it keeps, in the order of the object. Emptiness is not
  looked at again after pruning: the object \<open>{a: None, b: {x: None}}\<close> prunes to \<open>{b: {}}\<close>.
\<close>

theorem remove_nulls_object:
  "remove_nulls (PDict d) =
     PDict (map (\<lambda>(k, v). (k, remove_nulls v))
              (filter (\<lambda>(k, v). v \<noteq> PNone \<and> v \<noteq> PList [] \<and> v \<noteq> PDict []) d))
   \<and> remove_nulls (PDict [(''a'', PNone), (''b'', PDict [(''x'', PNone)])]) = PDict [(''b'', PDict [])]"
proof
  have "(\<lambda>(k, v). keeps v) = (\<lambda>(k :: string, v). v \<noteq> PNone \<and> v \<noteq> PList [] \<and> v \<noteq> PDict [])"
    by (simp add: keeps_iff)
  then show "remove_nulls (PDict d) =
     PDict (map (\<lambda>(k, v). (k, remove_nulls v))
              (filter (\<lambda>(k, v). v \<noteq> PNone \<and> v \<noteq> PList [] \<and> v \<noteq> PDict []) d))"
    by simp
  show "remove_nulls (PDict [(''a'', PNone), (''b'', PDict [(''x'', PNone)])]) = PDict [(''b'', PDict [])]"
    by (simp add: keeps_def)
qed

theorem remove_nulls_object_witness:
  "remove_nulls (PDict [(''n'', PInt 1), (''e'', PList []), (''o'', PDict []), (''l'', PList [PNone, PInt 2])])
     = PDict [(''n'', PInt 1), (''l'', PList [PInt 2])]"
  using remove_nulls_object [of "[(''n'', PInt 1), (''e'', PList []), (''o'', PDict []), (''l'', PList [PNone, PInt 2])]"]
  by simp

subsection \<open>The classifier\<close>

text \<open>
  Claim C2, as amended. A literal made of an identifier, one space and \<^verbatim>\<open>[value=INNER]\<close>, where
  \<open>INNER\<close> is not empty and has no closing bracket, is classified as the string \<open>INNER\<close>,
  trimmed: the type name is dropped and \<open>INNER\<close> is not classified again.
\<close>

theorem value_wrapper_gives_string:
  assumes "ident \<noteq> []" "\<forall>c\<in>set ident. is_word c" "inner \<noteq> []" "CHR '']'' \<notin> set inner"
  shows "parse_value_recursive (ident @ '' [value='' @ inner @ '']'') = PStr (strip inner)"
proof -
  let ?v = "ident @ '' [value='' @ inner @ '']''"
  have sp: "CHR '' '' \<in> set ?v" by simp
  have hd: "\<not> is_space (hd ?v)"
    using assms(1,2) by (cases ident) (auto simp: word_not_space)
  have other: "?v \<noteq> x" if "CHR '' '' \<notin> set x" for x
    using sp that by blast
  have ne: "?v \<noteq> ''JsonNullable[null]''" "?v \<noteq> ''Optional[null]''" "?v \<noteq> ''[]''"
    by (rule other, simp)+
  show ?thesis
    by (subst classify_bracketed [OF _ hd _ _ _ ne])
       (simp_all only: value_wrapper_match [OF assms] option.case prod.case, simp_all)
qed

theorem value_wrapper_gives_string_witness:
  "parse_value_recursive ''TransactionStatus [value=authorization_succeeded]'' = PStr ''authorization_succeeded''"
  using value_wrapper_gives_string [of "''TransactionStatus''" "''authorization_succeeded''"]
  by (simp add: is_word_def is_space_def strip_def lstrip_def rstrip_def)

text \<open>As the claim states it, a numeric \<open>INNER\<close> would give an integer: it gives a string.\<close>

theorem value_wrapper_counterexample:
  "parse_value_recursive ''Status [value=5]'' = PStr ''5'' \<and> parse_value_recursive ''5'' = PInt 5"
  by code_simp





text \<open>
  Claim C4, as amended. For a tagged object \<^verbatim>\<open>Identifier[INNER]\<close> that no earlier rule takes (the
  identifier is neither \<^verbatim>\<open>Optional\<close> nor \<^verbatim>\<open>JsonNullable\<close>, the literal is no single-value
  wrapper) and whose inside gives at least one field, the classifier returns the fields of
  the inside with the type name stored among them, under the key \<^verbatim>\<open>_type\<close>: a field of the
  source named \<^verbatim>\<open>_type\<close> gets the type name as its value.
\<close>

theorem tagged_object_type_field:
  assumes "ident \<noteq> []" "\<forall>c\<in>set ident. is_word c" "inner \<noteq> []"
    and "ident \<noteq> ''Optional''" "ident \<noteq> ''JsonNullable''"
    and "match_value_wrapper (ident @ ''['' @ inner @ '']'') = None"
    and "parse_fields_from_content inner \<noteq> []"
  shows "parse_value_recursive (ident @ ''['' @ inner @ '']'') =
         PDict (dict_set (parse_fields_from_content inner) ''_type'' (PStr ident))"
proof -
  let ?v = "ident @ ''['' @ inner @ '']''"
  have hd: "\<not> is_space (hd ?v)"
    using assms(1,2) by (cases ident) (auto simp: word_not_space)
  have tw: "takeWhile is_word ?v = ident"
    using assms(2) by (simp add: takeWhile_word_ident)
  have other: "?v \<noteq> x" if "takeWhile is_word x \<noteq> ident" for x
    using tw that by blast
  have ne1: "?v \<noteq> ''JsonNullable[null]''"
    by (rule other) (use assms(5) in \<open>auto simp: is_word_def\<close>)
  have ne2: "?v \<noteq> ''Optional[null]''"
    by (rule other) (use assms(4) in \<open>auto simp: is_word_def\<close>)
  have ne3: "?v \<noteq> ''[]''"
    by (rule other) (use assms(1) in \<open>auto simp: is_word_def\<close>)
  note ne = ne1 ne2 ne3
  have w1: "match_wrapper ''Optional['' ?v = None"
    using wrapper_needs_name [of ident "''Optional''" "inner @ '']''"] assms(2,4) by (simp add: is_word_def)
  have w2: "match_wrapper ''JsonNullable['' ?v = None"
    using wrapper_needs_name [of ident "''JsonNullable''" "inner @ '']''"] assms(2,5) by (simp add: is_word_def)
  show ?thesis
    by (subst classify_bracketed [OF _ hd _ _ _ ne])
       (simp_all only: assms(6,7) w1 w2 nested_match [OF assms(1,2,3)] option.case prod.case Let_def if_True,
        simp_all)
qed

lemma buyer_fields: "parse_fields_from_content ''email=a@b.com'' = [(''email'', PStr ''a@b.com'')]"
  by code_simp

theorem tagged_object_type_field_witness:
  "parse_value_recursive ''TransactionBuyer[email=a@b.com]'' =
     PDict [(''email'', PStr ''a@b.com''), (''_type'', PStr ''TransactionBuyer'')]"
  using tagged_object_type_field [of "''TransactionBuyer''" "''email=a@b.com''"]
  by (simp add: buyer_fields match_value_wrapper_def is_word_def is_space_def)

text \<open>The type name is a field of the mapping, which so is not the mapping of the source
  fields, and it takes the place of a source field of the same name.\<close>

theorem tagged_object_counterexample:
  "parse_value_recursive ''TransactionBuyer[email=a@b.com]'' =
     PDict [(''email'', PStr ''a@b.com''), (''_type'', PStr ''TransactionBuyer'')]
   \<and> parse_fields_from_content ''email=a@b.com'' = [(''email'', PStr ''a@b.com'')]
   \<and> parse_value_recursive ''T[_type=x]'' = PDict [(''_type'', PStr ''T'')]
   \<and> parse_fields_from_content ''_type=x'' = [(''_type'', PStr ''x'')]"
  by code_simp

text \<open>
  Claim C5, as amended. For a literal that, trimmed, starts with \<^verbatim>\<open>[\<close> and ends with \<^verbatim>\<open>]\<close>, the
  classifier returns a list with one item for each top-level segment of the trimmed inside
  that is not empty once trimmed, in order, each the classification of the trimmed
  segment; a segment that is empty once trimmed gives no item.
\<close>

theorem array_items_nonempty_segments:
  assumes "startswith (strip v) ''[''" "endswith (strip v) '']''"
  shows "parse_value_recursive v =
     PList (map parse_value_recursive
       (filter (\<lambda>s. s \<noteq> []) (map strip (split_top_level (strip (slice_inner (strip v))) CHR '',''))))"
proof (cases "strip v = ''[]''")
  case True
  have "parse_value_recursive v = PList []"
    by (subst parse_value_recursive.simps) (simp add: parse_value_with_def True lower_def lower_char_def)
  then show ?thesis
    by (simp add: True slice_inner_def split_top_level_def)
next
  case False
  obtain r where r: "strip v = CHR ''['' # r"
    using assms(1) by (cases "strip v") (auto simp: startswith_def)
  have last: "last (strip v) = CHR '']''" and ne: "strip v \<noteq> []"
    using assms(2) by (auto simp: endswith_def suffix_def)
  have tw: "takeWhile is_word (strip v) = []" by (simp add: r)
  have vw: "match_value_wrapper (strip v) = None" by (simp add: match_value_wrapper_def tw)
  have mn: "match_nested (strip v) = None" by (simp add: match_nested_def tw)
  have w1: "match_wrapper ''Optional['' (strip v) = None" "match_wrapper ''JsonNullable['' (strip v) = None"
    by (simp_all add: match_wrapper_def r)
  have lits: "strip v \<noteq> ''JsonNullable[null]''" "strip v \<noteq> ''Optional[null]''"
    by (simp_all add: r)
  have "parse_value_recursive v =
      (let inner = strip (slice_inner (strip v)) in if inner = [] then PList [] else PList (parse_array_items inner))"
    by (subst classify_bracketed_strip [OF refl ne last lits False])
       (simp_all only: vw mn w1 option.case assms if_True simp_thms)
  then show ?thesis
    by (simp add: Let_def array_items_split split_top_level_def)
qed

theorem array_items_nonempty_segments_witness:
  "parse_value_recursive ''[1, [2,3], 4]'' =
     PList [parse_value_recursive ''1'', parse_value_recursive ''[2,3]'', parse_value_recursive ''4'']"
  using array_items_nonempty_segments [of "''[1, [2,3], 4]''"]
  by (simp add: startswith_def endswith_def suffix_def strip_def lstrip_def rstrip_def is_space_def
        slice_inner_def split_top_level_def)

text \<open>The inside \<^verbatim>\<open>1,,2\<close> has three segments and gives two items; the inside \<^verbatim>\<open>,\<close> is not
  empty and gives none.\<close>

theorem array_items_counterexample:
  "parse_value_recursive ''[1,,2]'' = PList [PInt 1, PInt 2]
   \<and> split_top_level ''1,,2'' CHR '','' = [''1'', [], ''2'']
   \<and> parse_value_recursive ''[,]'' = PList []"
  by code_simp

subsection \<open>Status and amount\<close>

text \<open>
  Claim C6, as amended. For every status value but \<open>PNone\<close>, the normalisation lower-cases
  the text of the value and applies the rules in their order, the first match winning, and
  returns the text unchanged when no rule matches; for \<open>PNone\<close> it returns \<^verbatim>\<open>unknown\<close>. The
  three examples of the specification hold.
\<close>

theorem normalize_status_rules:
  "(sv \<noteq> PNone \<longrightarrow>
      normalize_status repr sv =
        (case first_match status_rules (lower (py_str repr sv)) of
           Some out \<Rightarrow> out
         | None \<Rightarrow> py_str repr sv))
   \<and> normalize_status repr PNone = ''unknown''
   \<and> normalize_status repr (PStr ''authorization_succeeded'') = ''success''
   \<and> normalize_status repr (PStr ''refunded_partially'') = ''refunded''
   \<and> normalize_status repr (PStr ''weird'') = ''weird''"
proof -
  have general: "normalize_status repr sv =
        (case first_match status_rules (lower (py_str repr sv)) of
           Some out \<Rightarrow> out
         | None \<Rightarrow> py_str repr sv)" if "sv \<noteq> PNone"
    using that by (simp add: normalize_status_def status_rules_def Let_def)
  have ex: "normalize_status repr (PStr ''authorization_succeeded'') = ''success''"
    "normalize_status repr (PStr ''refunded_partially'') = ''refunded''"
    "normalize_status repr (PStr ''weird'') = ''weird''"
    by code_simp+
  show ?thesis using general ex by (simp add: normalize_status_def)
qed

lemma failed_rule: "first_match status_rules (lower ''Payment_FAILED'') = Some ''failed''"
  by code_simp

theorem normalize_status_rules_witness:
  "PStr ''Payment_FAILED'' \<noteq> PNone \<and> normalize_status (\<lambda>v. []) (PStr ''Payment_FAILED'') = ''failed''"
proof -
  have "PStr ''Payment_FAILED'' \<noteq> PNone" by simp
  with normalize_status_rules [of "PStr ''Payment_FAILED''" "\<lambda>v. []"]
  have "normalize_status (\<lambda>v. []) (PStr ''Payment_FAILED'') =
        (case first_match status_rules (lower (py_str (\<lambda>v. []) (PStr ''Payment_FAILED''))) of
           Some out \<Rightarrow> out
         | None \<Rightarrow> py_str (\<lambda>v. []) (PStr ''Payment_FAILED''))"
    by blast
  then show ?thesis by (simp add: failed_rule)
qed

text \<open>The text of \<open>PNone\<close> is \<^verbatim>\<open>None\<close>, which no rule matches, and the result is not that text.\<close>

theorem normalize_status_counterexample: "normalize_status (\<lambda>v. []) PNone = ''unknown'' \<and> py_str (\<lambda>v. []) PNone = ''None''
   \<and> first_match status_rules (lower ''None'') = None"
  by code_simp


lemma convert_amount_examples:
  "convert_amount (PInt 1591) = Inr (Finite (4478266879466537 / 281474976710656))"
  "py_float ''15.91'' = Some (Finite (4478266879466537 / 281474976710656))"
  "convert_amount (PInt 50) = Inr (Finite 50)"
  "convert_amount (PInt 100) = Inr (Finite 1)"
  by code_simp+

text \<open>On a finite float the conversion is the one the claim describes, the quotient rounded
  to a float.\<close>

lemma whole_iff: "rat_of_int \<lceil>q\<rceil> = q \<longleftrightarrow> rat_of_int \<lfloor>q\<rfloor> = q"
  by (metis ceiling_of_int floor_of_int)

lemma convert_amount_finite:
  "convert_amount (PFloat (Finite q)) =
     Inr (if of_int \<lfloor>q\<rfloor> = q \<and> 100 \<le> \<bar>q\<bar> then round_double (q < 0) (\<bar>q\<bar> / 100) else Finite q)"
  using whole_iff [of q] by (auto simp: convert_amount_def)


text \<open>
  Claim C7 fails on the code at a whole number too large for a float: the claim has
  \<open>n / 100\<close> for it, and \<^verbatim>\<open>float(amount)\<close> raises \<^verbatim>\<open>OverflowError\<close>, which the \<^verbatim>\<open>except\<close> clause of
  \<^verbatim>\<open>convert_amount\<close> does not name. (The examples of the claim hold, see above.)
\<close>

theorem convert_amount_overflow: "convert_amount (PInt (10 ^ 309)) = Inl OverflowError"
proof -
  have "(2::int) ^ 1024 \<le> 10 ^ 309" by simp
  then have "float_of_int (10 ^ 309) = None" by (rule float_of_int_overflow)
  then show ?thesis by (simp add: convert_amount_def caught_def)
qed


subsection \<open>Records\<close>

text \<open>
  Claim C8 fails on the code at a record whose amount is the text \<^verbatim>\<open>inf\<close>: the classifier
  keeps it as a string, \<^verbatim>\<open>float\<close> makes an infinity of it, \<^verbatim>\<open>int\<close> of the infinity raises
  \<^verbatim>\<open>OverflowError\<close>, and the exception leaves \<^verbatim>\<open>parse_transaction_text\<close>.
\<close>

theorem parse_transaction_text_raises: "parse_transaction_text repr ''Transaction[amount=inf]'' = Inl OverflowError"
  by code_simp


text \<open>Where \<^verbatim>\<open>parse_transaction_text\<close> returns, it returns \<^verbatim>\<open>None\<close> exactly when the envelope
  does not match or the content gives no field.\<close>

lemma parse_transaction_text_none_iff:
  "parse_transaction_text repr text = Inr None \<longleftrightarrow>
     match_transaction (strip text) = None
     \<or> (\<exists>content. match_transaction (strip text) = Some content \<and> parse_fields_from_content content = [])"
  by (auto simp: parse_transaction_text_def Let_def match_transaction_def lstrip_def
      split: option.splits sum.splits)

text \<open>
  Claim C9, as amended. The batch splitter cuts the text before every place where the literal
  \<^verbatim>\<open>Transaction[\<close> stands: the pieces make up the text, there is one more piece than there are
  such places, and every piece after the first starts with the literal. Each piece is
  trimmed and the empty ones are left out; a chunk that comes from a piece after the first
  starts with the literal, the chunk of the first piece is whatever stands before the first
  literal. A text without the literal gives the trimmed text as its only chunk, and no chunk
  when the trimmed text is empty. \<^verbatim>\<open>Transaction[id=1]Transaction[id=2]\<close> gives two chunks, and
  a record for each.
\<close>

theorem record_chunks_split:
  "record_chunks text =
      filter (\<lambda>p. p \<noteq> []) [strip (hd (split_before ''Transaction['' [] text))]
      @ map strip (tl (split_before ''Transaction['' [] text))
   \<and> (\<forall>p\<in>set (tl (split_before ''Transaction['' [] text)). prefix ''Transaction['' (strip p))
   \<and> concat (split_before ''Transaction['' [] text) = text
   \<and> length (split_before ''Transaction['' [] text) = Suc (occurrences ''Transaction['' text)
   \<and> (\<not> contains text ''Transaction['' \<longrightarrow> record_chunks text = (if strip text = [] then [] else [strip text]))
   \<and> record_chunks ''Transaction[id=1]Transaction[id=2]'' = [''Transaction[id=1]'', ''Transaction[id=2]'']
   \<and> parse_multiple_transactions repr ''Transaction[id=1]Transaction[id=2]'' =
     Inr [\<lparr>transaction_id = Some (PInt 1), timestamp = None, status = None, amount = None, currency = None,
           raw_text = ''Transaction[id=1]'', json_full = [(''id'', PInt 1)], json_compact = PDict [(''id'', PInt 1)]\<rparr>,
          \<lparr>transaction_id = Some (PInt 2), timestamp = None, status = None, amount = None, currency = None,
           raw_text = ''Transaction[id=2]'', json_full = [(''id'', PInt 2)], json_compact = PDict [(''id'', PInt 2)]\<rparr>]"
proof -
  let ?ps = "split_before ''Transaction['' [] text"
  have later: "\<forall>p\<in>set (tl ?ps). prefix ''Transaction['' (strip p)"
    using later_pieces [of "[]" "text"] strip_keeps_literal by blast
  then have "\<forall>p\<in>set (tl ?ps). strip p \<noteq> []" by auto
  then have keep: "filter (\<lambda>p. p \<noteq> []) (map strip (tl ?ps)) = map strip (tl ?ps)"
    by (simp add: filter_id_conv)
  have "record_chunks text = filter (\<lambda>p. p \<noteq> []) [strip (hd ?ps)] @ filter (\<lambda>p. p \<noteq> []) (map strip (tl ?ps))"
    unfolding record_chunks_def by (rule filter_map_hd_tl) simp
  with keep have first: "record_chunks text = filter (\<lambda>p. p \<noteq> []) [strip (hd ?ps)] @ map strip (tl ?ps)"
    by simp
  have none: "record_chunks text = (if strip text = [] then [] else [strip text])"
    if "\<not> contains text ''Transaction[''"
    using no_literal_one_piece [OF that, of "[]"] by (simp add: record_chunks_def)
  from first later none show ?thesis
    by (simp add: concat_split_before length_split_before two_records)
qed


theorem record_chunks_split_witness:
  "\<not> contains ''  abc '' ''Transaction['' \<and> record_chunks ''  abc '' = [''abc'']"
  using record_chunks_split [of "''  abc ''"]
  by (simp add: strip_def lstrip_def rstrip_def is_space_def)

text \<open>A text that begins with something else has a chunk that does not start with the
  literal, and an empty text has no chunk at all, though the literal does not occur in it.\<close>

theorem record_chunks_counterexample:
  "record_chunks ''x Transaction[id=1]'' = [''x'', ''Transaction[id=1]''] \<and> \<not> prefix ''Transaction['' ''x''
   \<and> \<not> contains [] ''Transaction['' \<and> record_chunks [] = []"
  by code_simp

subsection \<open>Fields without a value\<close>

text \<open>
  Claim C10, as amended. A top-level segment of field content whose trimmed text is not empty
  and which has no \<^verbatim>\<open>=\<close> at depth 0 makes a field: the mapping is the one built from the
  segments before it, with the whole trimmed segment set as a name to \<open>PNone\<close>, and then the
  segments after it. So the name is a key of the result, and its value is \<open>PNone\<close> when no
  later segment has the same name; the content \<^verbatim>\<open>foo\<close> gives \<open>{foo: None}\<close>.
\<close>

theorem name_only_segment_makes_field:
  assumes "segs = split_top_level content CHR '',''" "i < length segs"
    and "\<not> top_level_eq 0 (segs ! i)" "strip (segs ! i) \<noteq> []"
  shows "parse_fields_from_content content =
           foldl store_segment
             (dict_set (foldl store_segment [] (take i segs)) (strip (segs ! i)) PNone)
             (drop (Suc i) segs)
         \<and> dict_has (parse_fields_from_content content) (strip (segs ! i))
         \<and> ((\<forall>seg\<in>set (drop (Suc i) segs). strip (fst (split_field 0 seg)) \<noteq> strip (segs ! i))
              \<longrightarrow> dict_get (parse_fields_from_content content) (strip (segs ! i)) = Some PNone)
         \<and> parse_fields_from_content ''foo'' = [(''foo'', PNone)]"
proof -
  have "segs = take i segs @ segs ! i # drop (Suc i) segs"
    using assms(2) by (simp add: id_take_nth_drop)
  then have "foldl store_segment [] segs =
      foldl store_segment (store_segment (foldl store_segment [] (take i segs)) (segs ! i)) (drop (Suc i) segs)"
    by (metis foldl_append foldl_Cons)
  then have eq: "parse_fields_from_content content =
           foldl store_segment
             (dict_set (foldl store_segment [] (take i segs)) (strip (segs ! i)) PNone)
             (drop (Suc i) segs)"
    using assms by (simp add: fields_as_segments segment_without_eq)
  have has: "dict_has (parse_fields_from_content content) (strip (segs ! i))"
    unfolding eq by (rule dict_has_segments) (simp add: dict_has_set)
  have get: "dict_get (parse_fields_from_content content) (strip (segs ! i)) = Some PNone"
    if "\<forall>seg\<in>set (drop (Suc i) segs). strip (fst (split_field 0 seg)) \<noteq> strip (segs ! i)"
    unfolding eq using that by (simp add: dict_get_segments dict_get_set)
  have foo: "parse_fields_from_content ''foo'' = [(''foo'', PNone)]"
    by code_simp
  from eq has get foo show ?thesis by blast
qed

lemma witness_segments:
  "split_top_level ''a=1, foo ,b=2'' CHR '','' = [''a=1'', '' foo '', ''b=2'']"
  "\<not> top_level_eq 0 '' foo ''"
  "strip '' foo '' = ''foo''"
  "strip ''b'' = ''b''"
  by code_simp+

theorem name_only_segment_makes_field_witness:
  "split_top_level ''a=1, foo ,b=2'' CHR '','' = [''a=1'', '' foo '', ''b=2'']
   \<and> \<not> top_level_eq 0 '' foo ''
   \<and> dict_has (parse_fields_from_content ''a=1, foo ,b=2'') ''foo''
   \<and> dict_get (parse_fields_from_content ''a=1, foo ,b=2'') ''foo'' = Some PNone"
proof -
  let ?segs = "[''a=1'', '' foo '', ''b=2'']"
  have p1: "?segs = split_top_level ''a=1, foo ,b=2'' CHR '',''" by (simp only: witness_segments)
  have p2: "1 < length ?segs" by simp
  have p3: "\<not> top_level_eq 0 (?segs ! 1)" by (simp add: witness_segments)
  have p4: "strip (?segs ! 1) \<noteq> []" by (simp add: witness_segments)
  from name_only_segment_makes_field [OF p1 p2 p3 p4]
  have has: "dict_has (parse_fields_from_content ''a=1, foo ,b=2'') (strip (?segs ! 1))"
    and get: "(\<forall>seg\<in>set (drop (Suc 1) ?segs). strip (fst (split_field 0 seg)) \<noteq> strip (?segs ! 1))
              \<longrightarrow> dict_get (parse_fields_from_content ''a=1, foo ,b=2'') (strip (?segs ! 1)) = Some PNone"
    by blast+
  have name: "strip (?segs ! 1) = ''foo''" by (simp add: witness_segments)
  have "\<forall>seg\<in>set (drop (Suc 1) ?segs). strip (fst (split_field 0 seg)) \<noteq> ''foo''"
    by (simp add: witness_segments)
  with has get show ?thesis unfolding name by (simp add: witness_segments)
qed

text \<open>
  As the claim states it, the value of the field would be \<open>PNone\<close> for every content. In
  \<^verbatim>\<open>foo,foo=1\<close> the first segment has no \<^verbatim>\<open>=\<close> and makes the field \<^verbatim>\<open>foo\<close>; the second segment
  has the same name and its value takes the place of \<open>PNone\<close>.
\<close>

theorem name_only_segment_counterexample:
  "split_top_level ''foo,foo=1'' CHR '','' = [''foo'', ''foo=1'']
   \<and> \<not> top_level_eq 0 ''foo'' \<and> strip ''foo'' = ''foo''
   \<and> parse_fields_from_content ''foo,foo=1'' = [(''foo'', PInt 1)]
   \<and> dict_get (parse_fields_from_content ''foo,foo=1'') ''foo'' = Some (PInt 1)"
  by code_simp

subsection \<open>The examples of the specification\<close>

text \<open>The depth-aware split, the double unwrap and the end-to-end scenario.\<close>

lemma specification_examples:
  "split_top_level ''1,[2,3],4'' CHR '','' = [''1'', ''[2,3]'', ''4'']"
  "parse_value_recursive ''Optional[JsonNullable[null]]'' = PNone"
  "parse_value_recursive ''Optional[Optional[5]]'' = PInt 5"
  by code_simp+

lemma end_to_end_scenario:
  "parse_transaction_text repr
     ''Transaction[id=X1, currency=CAD, amount=1591, status=TransactionStatus [value=authorization_succeeded], settledCurrency=JsonNullable[null], country=JsonNullable[CA], createdAt=2025-12-16T20:23:36Z]''
   = Inr (Some
       \<lparr>transaction_id = Some (PStr ''X1''),
        timestamp = Some (PStr ''2025-12-16T20:23:36Z''),
        status = Some ''success'',
        amount = Some (Finite (4478266879466537 / 281474976710656)),
        currency = Some (PStr ''CAD''),
        raw_text = ''Transaction[id=X1, currency=CAD, amount=1591, status=TransactionStatus [value=authorization_succeeded], settledCurrency=JsonNullable[null], country=JsonNullable[CA], createdAt=2025-12-16T20:23:36Z]'',
        json_full =
          [(''id'', PStr ''X1''), (''currency'', PStr ''CAD''), (''amount'', PInt 1591),
           (''status'', PStr ''authorization_succeeded''), (''settledCurrency'', PNone),
           (''country'', PStr ''CA''), (''createdAt'', PStr ''2025-12-16T20:23:36Z'')],
        json_compact =
          PDict [(''id'', PStr ''X1''), (''currency'', PStr ''CAD''), (''amount'', PInt 1591),
           (''status'', PStr ''authorization_succeeded''),
           (''country'', PStr ''CA''), (''createdAt'', PStr ''2025-12-16T20:23:36Z'')]\<rparr>)"
  by code_simp

end
